theory Spec2Isabelle
  imports Main
begin

section \<open>JavaScript values used by the client\<close>

text \<open>
  Strings are lists of code units, so \<open>length\<close> is the \<^verbatim>\<open>.length\<close> of the source.
  A JSON object is read through its string fields; a field that is absent reads as
  \<^verbatim>\<open>undefined\<close>, which is \<open>None\<close> here.
\<close>

type_synonym body = "string \<rightharpoonup> string"

text \<open>Truthiness of a value that is a string, \<^verbatim>\<open>null\<close> or \<^verbatim>\<open>undefined\<close>.\<close>

fun truthy :: "string option \<Rightarrow> bool" where
  "truthy None = False"
| "truthy (Some s) = (s \<noteq> [])"

text \<open>The string conversion that \<^verbatim>\<open>localStorage.setItem\<close> applies to its value.\<close>

fun to_string :: "string option \<Rightarrow> string" where
  "to_string None = ''undefined''"
| "to_string (Some s) = s"

section \<open>The browser: local storage and the location\<close>

text \<open>
  \<open>navigations\<close> lists the assignments to \<^verbatim>\<open>window.location.href\<close> in the order
  they were made.
\<close>

record browser =
  localStorage :: "string \<rightharpoonup> string"
  navigations :: "string list"

definition getItem :: "browser \<Rightarrow> string \<Rightarrow> string option" where
  "getItem b k = localStorage b k"

definition setItem :: "string \<Rightarrow> string \<Rightarrow> browser \<Rightarrow> browser" where
  "setItem k v b = b\<lparr>localStorage := (localStorage b)(k \<mapsto> v)\<rparr>"

definition removeItem :: "string \<Rightarrow> browser \<Rightarrow> browser" where
  "removeItem k b = b\<lparr>localStorage := (localStorage b)(k := None)\<rparr>"

definition assign_href :: "string \<Rightarrow> browser \<Rightarrow> browser" where
  "assign_href target b = b\<lparr>navigations := navigations b @ [target]\<rparr>"

section \<open>services/api.js: the shared client and its interceptors\<close>

datatype js_file = File string

datatype payload =
    NoPayload
  | JsonObject "(string \<times> string) list"
  | FormData "(string \<times> js_file) list"

text \<open>The options of a request; \<open>http_method\<close> is the field \<^verbatim>\<open>method\<close> of the library.\<close>

record config =
  http_method :: string
  url :: string
  headers :: "string \<rightharpoonup> string"
  payload :: payload

record http_response =
  status :: nat
  data :: body

record axios_error =
  message :: string
  response :: "http_response option"

text \<open>What comes back for a request: a response of the server, or none at all.\<close>

datatype reply = Response http_response | NetworkError string

text \<open>The headers of \<^verbatim>\<open>axios.create\<close>; the headers of a call override them.\<close>

definition default_headers :: "string \<rightharpoonup> string" where
  "default_headers = [''Content-Type'' \<mapsto> ''application/json'']"

definition merge_config :: "string \<Rightarrow> string \<Rightarrow> payload \<Rightarrow> (string \<rightharpoonup> string) \<Rightarrow> config" where
  "merge_config m u d hs =
     \<lparr>http_method = m, url = u, headers = default_headers ++ hs, payload = d\<rparr>"

text \<open>Request interceptor: the token is added when the stored value is truthy.\<close>

definition request_fulfilled :: "browser \<Rightarrow> config \<Rightarrow> config" where
  "request_fulfilled b cfg =
     (let token = getItem b ''token''
      in if truthy token
         then cfg\<lparr>headers := (headers cfg)(''Authorization'' \<mapsto> ''Bearer '' @ to_string token)\<rparr>
         else cfg)"

text \<open>
  The request that leaves the client for a call \<^verbatim>\<open>api.get\<close>, \<^verbatim>\<open>api.post\<close> or
  \<^verbatim>\<open>api.delete\<close>, with the storage as it is when the call is made.
\<close>

definition api_send :: "browser \<Rightarrow> string \<Rightarrow> string \<Rightarrow> payload \<Rightarrow> (string \<rightharpoonup> string) \<Rightarrow> config" where
  "api_send b m u d hs = request_fulfilled b (merge_config m u d hs)"

text \<open>
  The library settles a call by the status of the response: the client is created
  without a \<^verbatim>\<open>validateStatus\<close> option, so the statuses from 200 to 299 fulfil the
  promise and every other one rejects it, as does a request without response.
\<close>

definition validateStatus :: "nat \<Rightarrow> bool" where
  "validateStatus st \<longleftrightarrow> 200 \<le> st \<and> st < 300"

fun digits :: "nat \<Rightarrow> string" where
  "digits n =
     (if n < 10 then [char_of (48 + n)] else digits (n div 10) @ [char_of (48 + n mod 10)])"

fun axios_settle :: "reply \<Rightarrow> axios_error + http_response" where
  "axios_settle (NetworkError msg) = Inl \<lparr>message = msg, response = None\<rparr>"
| "axios_settle (Response r) =
     (if validateStatus (status r) then Inr r
      else Inl \<lparr>message = ''Request failed with status code '' @ digits (status r),
                response = Some r\<rparr>)"

text \<open>
  Response interceptor. A fulfilled response passes unchanged. The handler of a
  rejection reads \<^verbatim>\<open>error.response?.status\<close>, and rejects again with the same error.
\<close>

definition response_status :: "axios_error \<Rightarrow> nat option" where
  "response_status err = map_option status (response err)"

definition response_rejected :: "axios_error \<Rightarrow> browser \<Rightarrow> browser" where
  "response_rejected err b =
     (if response_status err = Some 401
      then assign_href ''/login'' (removeItem ''token'' b)
      else b)"

definition api_settle :: "reply \<Rightarrow> browser \<Rightarrow> browser \<times> (axios_error + http_response)" where
  "api_settle rep b =
     (case axios_settle rep of
        Inr r \<Rightarrow> (b, Inr r)
      | Inl err \<Rightarrow> (response_rejected err b, Inl err))"

text \<open>A whole call: the request sent, and the browser and the result once it is settled.\<close>

definition api_call ::
  "browser \<Rightarrow> string \<Rightarrow> string \<Rightarrow> payload \<Rightarrow> (string \<rightharpoonup> string) \<Rightarrow> reply
     \<Rightarrow> config \<times> browser \<times> (axios_error + http_response)" where
  "api_call b m u d hs rep = (api_send b m u d hs, api_settle rep b)"

section \<open>services/auth.js\<close>

definition register_request :: "browser \<Rightarrow> (string \<times> string) list \<Rightarrow> config" where
  "register_request b userData =
     api_send b ''POST'' ''/auth/register'' (JsonObject userData) Map.empty"

definition login_request :: "browser \<Rightarrow> (string \<times> string) list \<Rightarrow> config" where
  "login_request b credentials =
     api_send b ''POST'' ''/auth/login'' (JsonObject credentials)
       [''Content-Type'' \<mapsto> ''application/x-www-form-urlencoded'']"

text \<open>The part of \<^verbatim>\<open>login\<close> after the \<^verbatim>\<open>await\<close>: a rejection is thrown on to the caller.\<close>

definition login_settled :: "reply \<Rightarrow> browser \<Rightarrow> browser \<times> (axios_error + body)" where
  "login_settled rep b =
     (case api_settle rep b of
        (b', Inl err) \<Rightarrow> (b', Inl err)
      | (b', Inr r) \<Rightarrow>
          (setItem ''token'' (to_string (data r ''access_token'')) b', Inr (data r)))"

definition getCurrentUser_request :: "browser \<Rightarrow> config" where
  "getCurrentUser_request b = api_send b ''GET'' ''/auth/me'' NoPayload Map.empty"

definition logout :: "browser \<Rightarrow> browser" where
  "logout b = assign_href ''/login'' (removeItem ''token'' b)"

definition isAuthenticated :: "browser \<Rightarrow> bool" where
  "isAuthenticated b = truthy (getItem b ''token'')"

section \<open>services/projects.js\<close>

definition createProject_request :: "browser \<Rightarrow> (string \<times> string) list \<Rightarrow> config" where
  "createProject_request b projectData =
     api_send b ''POST'' ''/projects'' (JsonObject projectData) Map.empty"

definition getProjects_request :: "browser \<Rightarrow> config" where
  "getProjects_request b = api_send b ''GET'' ''/projects'' NoPayload Map.empty"

definition getProject_request :: "browser \<Rightarrow> string \<Rightarrow> config" where
  "getProject_request b projectId =
     api_send b ''GET'' (''/projects/'' @ projectId) NoPayload Map.empty"

definition deleteProject_request :: "browser \<Rightarrow> string \<Rightarrow> config" where
  "deleteProject_request b projectId =
     api_send b ''DELETE'' (''/projects/'' @ projectId) NoPayload Map.empty"

text \<open>
  \<^verbatim>\<open>uploadFiles\<close>: the loop appends every file under the name \<^verbatim>\<open>files\<close>, then the
  form is posted. The result is the list of the requests the call issues.
\<close>

fun append_files :: "(string \<times> js_file) list \<Rightarrow> js_file list \<Rightarrow> (string \<times> js_file) list" where
  "append_files formData [] = formData"
| "append_files formData (f # fs) = append_files (formData @ [(''files'', f)]) fs"

definition uploadFiles :: "browser \<Rightarrow> string \<Rightarrow> js_file list \<Rightarrow> config list" where
  "uploadFiles b projectId files =
     (let formData = append_files [] files
      in [api_send b ''POST'' (''/projects/'' @ projectId @ ''/upload'') (FormData formData)
            [''Content-Type'' \<mapsto> ''multipart/form-data'']])"

section \<open>pages/Register.jsx: the submit handler\<close>

record form_data =
  username :: string
  email :: string
  full_name :: string
  password :: string
  confirmPassword :: string

text \<open>
  The state of the component; \<open>timeouts\<close> lists the navigations registered with
  \<^verbatim>\<open>setTimeout\<close>, with their delay.
\<close>

record register_view =
  formData :: form_data
  error :: string
  success :: bool
  loading :: bool
  timeouts :: "(nat \<times> string) list"

text \<open>
  \<^verbatim>\<open>handleSubmit\<close> up to its \<^verbatim>\<open>await\<close>: the view afterwards and the requests issued.
\<close>

definition handleSubmit :: "browser \<Rightarrow> register_view \<Rightarrow> register_view \<times> config list" where
  "handleSubmit b v =
     (let v1 = v\<lparr>error := ''''\<rparr>; fd = formData v1
      in if password fd \<noteq> confirmPassword fd
         then (v1\<lparr>error := ''Passwords do not match''\<rparr>, [])
         else if length (password fd) < 8
         then (v1\<lparr>error := ''Password must be at least 8 characters''\<rparr>, [])
         else (v1\<lparr>loading := True\<rparr>,
               [register_request b
                  [(''username'', username fd), (''email'', email fd),
                   (''full_name'', full_name fd), (''password'', password fd)]]))"

text \<open>The detail of a rejection: \<^verbatim>\<open>err.response?.data?.detail\<close>.\<close>

definition error_detail :: "axios_error \<Rightarrow> string option" where
  "error_detail err = (case response err of None \<Rightarrow> None | Some r \<Rightarrow> data r ''detail'')"

text \<open>\<^verbatim>\<open>handleSubmit\<close> after the \<^verbatim>\<open>await\<close>, once the request is settled.\<close>

definition handleSubmit_settled ::
  "reply \<Rightarrow> browser \<times> register_view \<Rightarrow> browser \<times> register_view" where
  "handleSubmit_settled rep bv =
     (case api_settle rep (fst bv) of
        (b', Inr r) \<Rightarrow>
          (b', (snd bv)\<lparr>success := True,
                        timeouts := timeouts (snd bv) @ [(2000, ''/login'')],
                        loading := False\<rparr>)
      | (b', Inl err) \<Rightarrow>
          (b', (snd bv)\<lparr>error := (if truthy (error_detail err) then to_string (error_detail err)
                                   else ''Registration failed. Please try again.''),
                        loading := False\<rparr>))"

section \<open>services/analysis.js and hooks/useAnalysis.js\<close>

text \<open>
  The hook runs in the event loop of the page: a call of the view, a millisecond of time
  and the settling of a request are events, and every function of the hook runs from
  one \<^verbatim>\<open>await\<close> to the next within one event. A request in flight remembers the
  \<^verbatim>\<open>await\<close> it resumes: that of \<^verbatim>\<open>startAnalysis\<close>, that of the interval callback
  (with the identifier of its interval, which the callback closes over), or that of
  \<^verbatim>\<open>fetchResults\<close>.
\<close>

datatype kont = AwaitRun | AwaitStatus nat | AwaitResults

record request =
  sent_at :: nat
  cfg :: config
  kont :: kont

text \<open>
  An interval of \<^verbatim>\<open>setInterval\<close>: its identifier is its index in \<open>intervals\<close>,
  \<open>due\<close> is the time of its next call, and \<^verbatim>\<open>clearInterval\<close> makes it inactive.
\<close>

record timer =
  delay :: nat
  due :: nat
  active :: bool

text \<open>A function that an effect returns for its teardown.\<close>

datatype cleanup = ClearInterval nat

text \<open>
  The page and the hook in it. The state variables \<^verbatim>\<open>analysis\<close>, \<^verbatim>\<open>status\<close>,
  \<^verbatim>\<open>loading\<close> and \<^verbatim>\<open>error\<close> of the hook are the fields \<open>hook_analysis\<close>,
  \<open>hook_status\<close>, \<open>hook_loading\<close> and \<open>hook_error\<close>; \<^verbatim>\<open>null\<close> and
  \<^verbatim>\<open>undefined\<close> are \<open>None\<close>. \<open>clock\<close> is the time in milliseconds,
  \<open>cleanups\<close> holds the teardown functions that effects have returned, \<open>sent\<close> lists
  every request issued, and \<open>awaiting\<close> maps the requests in flight to the code that
  waits for them.
\<close>

record world =
  page :: browser
  projectId :: string
  hook_analysis :: "body option"
  hook_status :: "string option"
  hook_loading :: bool
  hook_error :: "string option"
  clock :: nat
  intervals :: "timer list"
  cleanups :: "cleanup list"
  sent :: "request list"
  awaiting :: "nat \<rightharpoonup> kont"

definition init :: "string \<Rightarrow> browser \<Rightarrow> world" where
  "init pid b =
     \<lparr>page = b, projectId = pid, hook_analysis = None, hook_status = Some ''not_started'',
      hook_loading = False, hook_error = None, clock = 0, intervals = [], cleanups = [],
      sent = [], awaiting = Map.empty\<rparr>"

text \<open>A call of the client from the hook; the identifier of a request is its index in \<open>sent\<close>.\<close>

definition send :: "kont \<Rightarrow> string \<Rightarrow> string \<Rightarrow> world \<Rightarrow> world" where
  "send k m u s =
     s\<lparr>sent := sent s @ [\<lparr>sent_at = clock s,
                            cfg = api_send (page s) m u NoPayload Map.empty,
                            kont = k\<rparr>],
       awaiting := (awaiting s)(length (sent s) \<mapsto> k)\<rparr>"

definition setInterval :: "nat \<Rightarrow> world \<Rightarrow> world" where
  "setInterval d s =
     s\<lparr>intervals := intervals s @ [\<lparr>delay = d, due = clock s + d, active = True\<rparr>]\<rparr>"

definition clearInterval :: "nat \<Rightarrow> world \<Rightarrow> world" where
  "clearInterval i s =
     (if i < length (intervals s)
      then s\<lparr>intervals := (intervals s)[i := (intervals s ! i)\<lparr>active := False\<rparr>]\<rparr>
      else s)"

definition startAnalysis :: "world \<Rightarrow> world" where
  "startAnalysis s =
     send AwaitRun ''POST'' (''/analysis/run/'' @ projectId s)
       (s\<lparr>hook_loading := True, hook_error := None\<rparr>)"

definition fetchResults :: "world \<Rightarrow> world" where
  "fetchResults s = send AwaitResults ''GET'' (''/analysis/results/'' @ projectId s) s"

text \<open>
  \<^verbatim>\<open>pollStatus\<close> registers the interval and returns the function that clears it.
\<close>

definition pollStatus :: "world \<Rightarrow> world \<times> cleanup" where
  "pollStatus s = (setInterval 3000 s, ClearInterval (length (intervals s)))"

text \<open>The callback of the interval, up to its \<^verbatim>\<open>await\<close>.\<close>

definition tick :: "nat \<Rightarrow> world \<Rightarrow> world" where
  "tick i s = send (AwaitStatus i) ''GET'' (''/analysis/status/'' @ projectId s) s"

text \<open>
  The code after each \<^verbatim>\<open>await\<close>, for a fulfilled and for a rejected request.
  \<^verbatim>\<open>startAnalysis\<close> calls \<^verbatim>\<open>pollStatus\<close> and drops what it returns.
\<close>

fun resume :: "kont \<Rightarrow> axios_error + http_response \<Rightarrow> world \<Rightarrow> world" where
  "resume AwaitRun (Inr r) s = fst (pollStatus (s\<lparr>hook_status := Some ''processing''\<rparr>))"
| "resume AwaitRun (Inl err) s = s\<lparr>hook_error := Some (message err), hook_loading := False\<rparr>"
| "resume (AwaitStatus i) (Inr r) s =
     (let statusData = data r;
          s1 = s\<lparr>hook_status := statusData ''status''\<rparr>
      in if statusData ''status'' = Some ''completed''
         then fetchResults (clearInterval i s1)
         else s1)"
| "resume (AwaitStatus i) (Inl err) s =
     (clearInterval i s)\<lparr>hook_error := Some (message err), hook_loading := False\<rparr>"
| "resume AwaitResults (Inr r) s = s\<lparr>hook_analysis := Some (data r), hook_loading := False\<rparr>"
| "resume AwaitResults (Inl err) s = s\<lparr>hook_error := Some (message err), hook_loading := False\<rparr>"

text \<open>
  The effect of the hook: it fetches the results when \<^verbatim>\<open>projectId\<close> is truthy, and
  returns no function for the teardown.
\<close>

definition effect :: "world \<Rightarrow> world \<times> cleanup option" where
  "effect s = (if projectId s \<noteq> [] then fetchResults s else s, None)"

fun run_cleanup :: "cleanup \<Rightarrow> world \<Rightarrow> world" where
  "run_cleanup (ClearInterval i) s = clearInterval i s"

text \<open>
  An active interval that is due calls its callback and is due again after its delay;
  \<open>fire_due\<close> does so for every interval, when a millisecond has passed.
\<close>

definition fire :: "nat \<Rightarrow> world \<Rightarrow> world" where
  "fire i s =
     (let t = intervals s ! i
      in if active t \<and> due t = clock s
         then tick i (s\<lparr>intervals := (intervals s)[i := t\<lparr>due := due t + delay t\<rparr>]\<rparr>)
         else s)"

definition fire_due :: "world \<Rightarrow> world" where
  "fire_due s = fold fire [0..<length (intervals s)] s"

text \<open>
  The events. \<open>Mount\<close> runs the effect and keeps the teardown function it returns,
  if it returns one; \<open>Unmount\<close> runs the teardown functions that were kept.
  \<open>StartAnalysis\<close> and \<open>Refetch\<close> are the calls of the view, \<open>Elapse\<close> is one
  millisecond, and \<open>Settle\<close> is the arrival of the reply to a request in flight: the
  reply passes the client with its response interceptor, then the waiting code runs.
\<close>

datatype event =
    Mount
  | Unmount
  | StartAnalysis
  | Refetch
  | Elapse
  | Settle nat reply

fun step :: "event \<Rightarrow> world \<Rightarrow> world" where
  "step Mount s =
     (case effect s of
        (s', None) \<Rightarrow> s'
      | (s', Some c) \<Rightarrow> s'\<lparr>cleanups := cleanups s' @ [c]\<rparr>)"
| "step Unmount s = fold run_cleanup (cleanups s) (s\<lparr>cleanups := []\<rparr>)"
| "step StartAnalysis s = startAnalysis s"
| "step Refetch s = fetchResults s"
| "step Elapse s = fire_due (s\<lparr>clock := clock s + 1\<rparr>)"
| "step (Settle rid rep) s =
     (case awaiting s rid of
        None \<Rightarrow> s
      | Some k \<Rightarrow>
          (case api_settle rep (page s) of
             (b', res) \<Rightarrow> resume k res (s\<lparr>page := b', awaiting := (awaiting s)(rid := None)\<rparr>)))"

definition run :: "event list \<Rightarrow> world \<Rightarrow> world" where
  "run evs s = fold step evs s"

text \<open>The status requests that the callback of interval \<open>i\<close> has issued, and their times.\<close>

definition status_requests :: "nat \<Rightarrow> world \<Rightarrow> request list" where
  "status_requests i s = filter (\<lambda>r. kont r = AwaitStatus i) (sent s)"

definition status_times :: "nat \<Rightarrow> world \<Rightarrow> nat list" where
  "status_times i s = map sent_at (status_requests i s)"

definition is_active :: "nat \<Rightarrow> world \<Rightarrow> bool" where
  "is_active i s \<longleftrightarrow> i < length (intervals s) \<and> active (intervals s ! i)"

section \<open>Notions used to state the properties of the hook\<close>

text \<open>An interval that exists and has been cleared.\<close>

definition stopped :: "nat \<Rightarrow> world \<Rightarrow> bool" where
  "stopped i s \<longleftrightarrow> i < length (intervals s) \<and> \<not> active (intervals s ! i)"

text \<open>Every status request, sent or in flight, names an interval that exists.\<close>

definition well_formed :: "world \<Rightarrow> bool" where
  "well_formed s \<longleftrightarrow>
     (\<forall>rid i. awaiting s rid = Some (AwaitStatus i) \<longrightarrow> i < length (intervals s))
     \<and> (\<forall>r \<in> set (sent s). \<forall>i. kont r = AwaitStatus i \<longrightarrow> i < length (intervals s))"

text \<open>The first \<open>n\<close> times of a poller registered at time \<open>t0\<close>.\<close>

fun slots :: "nat \<Rightarrow> nat \<Rightarrow> nat list" where
  "slots t0 0 = []"
| "slots t0 (Suc n) = slots t0 n @ [t0 + 3000 * Suc n]"

text \<open>
  An active interval that was registered at \<open>t0\<close> and has kept its times so far;
  \<open>scheduled\<close> allows the moment in which the interval is due and has not been called
  yet, \<open>on_time\<close> is the state between two events.
\<close>

definition scheduled :: "nat \<Rightarrow> nat \<Rightarrow> world \<Rightarrow> bool" where
  "scheduled i t0 s \<longleftrightarrow>
     i < length (intervals s) \<and> active (intervals s ! i) \<and> delay (intervals s ! i) = 3000
     \<and> slots t0 (length (status_times i s)) = status_times i s
     \<and> due (intervals s ! i) = t0 + 3000 * Suc (length (status_times i s))
     \<and> clock s \<le> due (intervals s ! i) \<and> due (intervals s ! i) \<le> clock s + 3000"

definition on_time :: "nat \<Rightarrow> nat \<Rightarrow> world \<Rightarrow> bool" where
  "on_time i t0 s \<longleftrightarrow> scheduled i t0 s \<and> clock s < due (intervals s ! i)"

text \<open>
  The values of the status enumeration, and the sequences of events in which every
  fulfilled status request carries one of them.
\<close>

definition status_enum :: "string option set" where
  "status_enum = {Some ''not_started'', Some ''processing'', Some ''completed''}"

definition enum_reply :: "world \<Rightarrow> event \<Rightarrow> bool" where
  "enum_reply s ev =
     (case ev of
        Settle rid rep \<Rightarrow>
          (case awaiting s rid of
             Some (AwaitStatus i) \<Rightarrow>
               (case axios_settle rep of
                  Inr r \<Rightarrow> data r ''status'' \<in> status_enum
                | Inl err \<Rightarrow> True)
           | _ \<Rightarrow> True)
      | _ \<Rightarrow> True)"

fun enum_replies :: "event list \<Rightarrow> world \<Rightarrow> bool" where
  "enum_replies [] s = True"
| "enum_replies (ev # evs) s = (enum_reply s ev \<and> enum_replies evs (step ev s))"

text \<open>
  An event that lets the loop of interval \<open>i\<close> go on: it is not the settling of one of
  its status requests with a rejection or with the status \<^verbatim>\<open>completed\<close>. A sequence of
  events keeps the loop polling when each of its events does, in the state it meets.
\<close>

definition lets_poll :: "nat \<Rightarrow> world \<Rightarrow> event \<Rightarrow> bool" where
  "lets_poll i s ev =
     (case ev of
        Settle rid rep \<Rightarrow>
          (case awaiting s rid of
             Some (AwaitStatus j) \<Rightarrow>
               j \<noteq> i \<or>
               (case axios_settle rep of
                  Inr r \<Rightarrow> data r ''status'' \<noteq> Some ''completed''
                | Inl err \<Rightarrow> False)
           | _ \<Rightarrow> True)
      | _ \<Rightarrow> True)"

fun keeps_polling :: "nat \<Rightarrow> event list \<Rightarrow> world \<Rightarrow> bool" where
  "keeps_polling i [] s = True"
| "keeps_polling i (ev # evs) s = (lets_poll i s ev \<and> keeps_polling i evs (step ev s))"

text \<open>Every status request sent is a GET of the status endpoint of the project.\<close>

definition status_shape :: "world \<Rightarrow> bool" where
  "status_shape s \<longleftrightarrow>
     (\<forall>r \<in> set (sent s). \<forall>i. kont r = AwaitStatus i \<longrightarrow>
        http_method (cfg r) = ''GET'' \<and> url (cfg r) = ''/analysis/status/'' @ projectId s)"

text \<open>
  A page with a stored token, a fulfilled response, and the hook of project \<^verbatim>\<open>p1\<close>
  after \<^verbatim>\<open>startAnalysis\<close> was fulfilled and 3000 ms have passed: the first status
  request is in flight.
\<close>

abbreviation sample_page :: browser where
  "sample_page \<equiv> \<lparr>localStorage = [''token'' \<mapsto> ''abc''], navigations = []\<rparr>"

abbreviation fulfilled :: "body \<Rightarrow> reply" where
  "fulfilled d \<equiv> Response \<lparr>status = 200, data = d\<rparr>"

abbreviation polling :: world where
  "polling \<equiv>
     run ([StartAnalysis, Settle 0 (fulfilled Map.empty)] @ replicate 3000 Elapse)
       (init ''p1'' sample_page)"

text \<open>
  The same hook after the first status request was answered with \<^verbatim>\<open>processing\<close> and
  another 3000 ms have passed: the second status request is in flight.
\<close>

abbreviation polled_twice :: world where
  "polled_twice \<equiv>
     run ([StartAnalysis, Settle 0 (fulfilled Map.empty)] @ replicate 3000 Elapse
            @ [Settle 1 (fulfilled [''status'' \<mapsto> ''processing''])] @ replicate 3000 Elapse)
       (init ''p1'' sample_page)"

section \<open>Properties of the shared client\<close>

lemma append_files_map: "append_files acc fs = acc @ map (Pair ''files'') fs"
  by (induction fs arbitrary: acc) simp_all

text \<open>
  Claim C1. A response with status 401, to a call of any method and any endpoint, makes
  the response interceptor remove the stored token and assign \<^verbatim>\<open>/login\<close> to the location
  exactly once: the storage loses the key \<^verbatim>\<open>token\<close> and nothing else, the list of
  navigations grows by the one entry, and the call is rejected with the error of that
  response.
\<close>

theorem unauthorized_clears_token_and_redirects_once:
  assumes "status r = 401"
  shows "\<exists>err. snd (api_call b m u d hs (Response r)) =
           (b\<lparr>localStorage := (localStorage b)(''token'' := None),
              navigations := navigations b @ [''/login'']\<rparr>, Inl err)
         \<and> response err = Some r"
  using assms
  by (simp add: api_call_def api_settle_def validateStatus_def response_rejected_def
      response_status_def assign_href_def removeItem_def)

theorem unauthorized_clears_token_and_redirects_once_witness:
  "status \<lparr>status = 401, data = Map.empty\<rparr> = 401
   \<and> (\<exists>err. snd (api_call \<lparr>localStorage = [''token'' \<mapsto> ''abc''], navigations = []\<rparr>
                 ''GET'' ''/auth/me'' NoPayload Map.empty
                 (Response \<lparr>status = 401, data = Map.empty\<rparr>)) =
            (\<lparr>localStorage = [''token'' \<mapsto> ''abc''], navigations = []\<rparr>
               \<lparr>localStorage := [''token'' \<mapsto> ''abc''](''token'' := None),
                navigations := [] @ [''/login'']\<rparr>, Inl err)
          \<and> response err = Some \<lparr>status = 401, data = Map.empty\<rparr>)"
proof -
  have h: "status \<lparr>status = 401, data = Map.empty\<rparr> = 401" by simp
  show ?thesis
    using h unauthorized_clears_token_and_redirects_once [OF h,
        of "\<lparr>localStorage = [''token'' \<mapsto> ''abc''], navigations = []\<rparr>"
           "''GET''" "''/auth/me''" NoPayload Map.empty]
    by simp
qed

text \<open>
  Claim C6, as the code has it. The request interceptor adds the header
  \<^verbatim>\<open>Authorization: Bearer <token>\<close> exactly when the stored token is truthy, that is
  present and not empty; otherwise the request leaves with the headers of the call, which
  carry no authorization anywhere in the services.
\<close>

theorem authorization_header_follows_token:
  "headers (api_send b m u d hs) ''Authorization'' =
     (if truthy (getItem b ''token'')
      then Some (''Bearer '' @ to_string (getItem b ''token''))
      else hs ''Authorization'')"
  by (simp add: api_send_def request_fulfilled_def merge_config_def default_headers_def
      Let_def map_add_def split: option.splits)

text \<open>
  Claim C6 as stated fails: the login request of a browser without a stored token has no
  \<^verbatim>\<open>Authorization\<close> header.
\<close>

theorem login_request_without_token_unauthorized:
  "headers (login_request \<lparr>localStorage = Map.empty, navigations = []\<rparr>
              [(''username'', ''ann''), (''password'', ''secret123'')]) ''Authorization'' = None"
  by (simp add: login_request_def api_send_def request_fulfilled_def merge_config_def
      default_headers_def getItem_def)

text \<open>
  Claim C9. For every list of files, the empty one included, \<^verbatim>\<open>uploadFiles\<close> issues
  exactly one request: the multipart POST to the upload endpoint of the project, whose
  form holds every file of the list, in order, under the name \<^verbatim>\<open>files\<close>.
\<close>

theorem uploadFiles_posts_every_list:
  "uploadFiles b pid files =
     [request_fulfilled b
        \<lparr>http_method = ''POST'', url = ''/projects/'' @ pid @ ''/upload'',
         headers = [''Content-Type'' \<mapsto> ''multipart/form-data''],
         payload = FormData (map (Pair ''files'') files)\<rparr>]
   \<and> uploadFiles b pid [] =
     [request_fulfilled b
        \<lparr>http_method = ''POST'', url = ''/projects/'' @ pid @ ''/upload'',
         headers = [''Content-Type'' \<mapsto> ''multipart/form-data''],
         payload = FormData []\<rparr>]"
  by (simp add: uploadFiles_def api_send_def merge_config_def default_headers_def
      append_files_map)

text \<open>
  Claim C10, as the code has it. When the login request is fulfilled with a body whose
  \<^verbatim>\<open>access_token\<close> is \<open>t\<close>, \<^verbatim>\<open>login\<close> has stored \<open>t\<close> under \<^verbatim>\<open>token\<close> when it
  returns, and \<^verbatim>\<open>isAuthenticated\<close> is true afterwards exactly when \<open>t\<close> is not empty.
\<close>

theorem login_stores_access_token:
  assumes "login_settled rep b = (b', Inr d)" and "d ''access_token'' = Some t"
  shows "getItem b' ''token'' = Some t \<and> (isAuthenticated b' \<longleftrightarrow> t \<noteq> [])"
  using assms
  by (auto simp: login_settled_def isAuthenticated_def getItem_def setItem_def
      split: prod.splits sum.splits)

theorem login_stores_access_token_witness:
  "login_settled (Response \<lparr>status = 200, data = [''access_token'' \<mapsto> ''abc'']\<rparr>)
       \<lparr>localStorage = Map.empty, navigations = []\<rparr> =
     (\<lparr>localStorage = [''token'' \<mapsto> ''abc''], navigations = []\<rparr>,
      Inr [''access_token'' \<mapsto> ''abc''])
   \<and> [''access_token'' \<mapsto> ''abc''] ''access_token'' = Some ''abc''
   \<and> getItem \<lparr>localStorage = [''token'' \<mapsto> ''abc''], navigations = []\<rparr> ''token'' = Some ''abc''
   \<and> isAuthenticated \<lparr>localStorage = [''token'' \<mapsto> ''abc''], navigations = []\<rparr>"
proof -
  have h1: "login_settled (Response \<lparr>status = 200, data = [''access_token'' \<mapsto> ''abc'']\<rparr>)
       \<lparr>localStorage = Map.empty, navigations = []\<rparr> =
     (\<lparr>localStorage = [''token'' \<mapsto> ''abc''], navigations = []\<rparr>,
      Inr [''access_token'' \<mapsto> ''abc''])"
    by (simp add: login_settled_def api_settle_def validateStatus_def setItem_def)
  have h2: "[''access_token'' \<mapsto> ''abc''] ''access_token'' = Some ''abc''" by simp
  show ?thesis
    using h1 h2 login_stores_access_token [OF h1 h2] by simp
qed

text \<open>
  Claim C10 as stated fails: a login fulfilled with the empty string as \<^verbatim>\<open>access_token\<close>
  stores it, and \<^verbatim>\<open>isAuthenticated\<close> is false afterwards.
\<close>

theorem login_empty_token_not_authenticated:
  "(case snd (login_settled (Response \<lparr>status = 200, data = [''access_token'' \<mapsto> '''']\<rparr>)
                \<lparr>localStorage = Map.empty, navigations = []\<rparr>) of
      Inr d \<Rightarrow> d ''access_token'' = Some '''' | Inl err \<Rightarrow> False)
   \<and> getItem (fst (login_settled (Response \<lparr>status = 200, data = [''access_token'' \<mapsto> '''']\<rparr>)
                \<lparr>localStorage = Map.empty, navigations = []\<rparr>)) ''token'' = Some ''''
   \<and> \<not> isAuthenticated
         (fst (login_settled (Response \<lparr>status = 200, data = [''access_token'' \<mapsto> '''']\<rparr>)
                \<lparr>localStorage = Map.empty, navigations = []\<rparr>))"
  by (simp add: login_settled_def api_settle_def validateStatus_def setItem_def getItem_def
      isAuthenticated_def)

section \<open>Properties of the registration form\<close>

text \<open>
  Claim C5. When the password and its confirmation differ, or the password has fewer than
  8 characters, \<^verbatim>\<open>handleSubmit\<close> issues no request: it sets the error message of the
  check that failed and changes nothing else of the view.
\<close>

theorem handleSubmit_blocks_invalid_password:
  assumes "password (formData v) \<noteq> confirmPassword (formData v)
           \<or> length (password (formData v)) < 8"
  shows "snd (handleSubmit b v) = []
         \<and> fst (handleSubmit b v) =
             v\<lparr>error := (if password (formData v) \<noteq> confirmPassword (formData v)
                          then ''Passwords do not match''
                          else ''Password must be at least 8 characters'')\<rparr>"
  using assms by (auto simp: handleSubmit_def Let_def)

theorem handleSubmit_blocks_invalid_password_witness:
  "password (formData \<lparr>formData = \<lparr>username = ''ann'', email = ''ann@example.org'',
        full_name = ''Ann'', password = ''abc'', confirmPassword = ''abd''\<rparr>,
        error = ''old'', success = False, loading = False, timeouts = []\<rparr>)
     \<noteq> confirmPassword (formData \<lparr>formData = \<lparr>username = ''ann'', email = ''ann@example.org'',
        full_name = ''Ann'', password = ''abc'', confirmPassword = ''abd''\<rparr>,
        error = ''old'', success = False, loading = False, timeouts = []\<rparr>)
   \<and> snd (handleSubmit \<lparr>localStorage = Map.empty, navigations = []\<rparr>
        \<lparr>formData = \<lparr>username = ''ann'', email = ''ann@example.org'',
        full_name = ''Ann'', password = ''abc'', confirmPassword = ''abd''\<rparr>,
        error = ''old'', success = False, loading = False, timeouts = []\<rparr>) = []
   \<and> error (fst (handleSubmit \<lparr>localStorage = Map.empty, navigations = []\<rparr>
        \<lparr>formData = \<lparr>username = ''ann'', email = ''ann@example.org'',
        full_name = ''Ann'', password = ''abc'', confirmPassword = ''abd''\<rparr>,
        error = ''old'', success = False, loading = False, timeouts = []\<rparr>))
      = ''Passwords do not match''"
  using handleSubmit_blocks_invalid_password
    [of "\<lparr>formData = \<lparr>username = ''ann'', email = ''ann@example.org'',
        full_name = ''Ann'', password = ''abc'', confirmPassword = ''abd''\<rparr>,
        error = ''old'', success = False, loading = False, timeouts = []\<rparr>"
        "\<lparr>localStorage = Map.empty, navigations = []\<rparr>"]
  by simp

section \<open>The event loop of the hook: auxiliary facts\<close>

lemma run_Nil [simp]: "run [] s = s"
  by (simp add: run_def)

lemma run_Cons [simp]: "run (ev # evs) s = run evs (step ev s)"
  by (simp add: run_def)

lemma run_append [simp]: "run (xs @ ys) s = run ys (run xs s)"
  by (simp add: run_def)

lemma send_fields [simp]:
  "page (send k m u s) = page s"
  "projectId (send k m u s) = projectId s"
  "hook_analysis (send k m u s) = hook_analysis s"
  "hook_status (send k m u s) = hook_status s"
  "hook_loading (send k m u s) = hook_loading s"
  "hook_error (send k m u s) = hook_error s"
  "clock (send k m u s) = clock s"
  "intervals (send k m u s) = intervals s"
  "cleanups (send k m u s) = cleanups s"
  "sent (send k m u s) =
     sent s @ [\<lparr>sent_at = clock s, cfg = api_send (page s) m u NoPayload Map.empty, kont = k\<rparr>]"
  "awaiting (send k m u s) = (awaiting s)(length (sent s) \<mapsto> k)"
  by (simp_all add: send_def)

lemma clearInterval_fields [simp]:
  "page (clearInterval i s) = page s"
  "projectId (clearInterval i s) = projectId s"
  "hook_analysis (clearInterval i s) = hook_analysis s"
  "hook_status (clearInterval i s) = hook_status s"
  "hook_loading (clearInterval i s) = hook_loading s"
  "hook_error (clearInterval i s) = hook_error s"
  "clock (clearInterval i s) = clock s"
  "cleanups (clearInterval i s) = cleanups s"
  "sent (clearInterval i s) = sent s"
  "awaiting (clearInterval i s) = awaiting s"
  "length (intervals (clearInterval i s)) = length (intervals s)"
  by (simp_all add: clearInterval_def)

lemma clearInterval_nth:
  "j < length (intervals s) \<Longrightarrow>
   intervals (clearInterval i s) ! j =
     (if j = i then (intervals s ! j)\<lparr>active := False\<rparr> else intervals s ! j)"
  by (simp add: clearInterval_def)

lemma status_requests_send:
  "status_requests i (send k m u s) =
     status_requests i s @
       (if k = AwaitStatus i
        then [\<lparr>sent_at = clock s, cfg = api_send (page s) m u NoPayload Map.empty, kont = k\<rparr>]
        else [])"
  by (simp add: status_requests_def)

lemma status_requests_clearInterval [simp]:
  "status_requests i (clearInterval j s) = status_requests i s"
  by (simp add: status_requests_def)

lemma fire_stopped:
  assumes "stopped i s"
  shows "stopped i (fire j s) \<and> status_requests i (fire j s) = status_requests i s"
  using assms
  by (auto simp: stopped_def fire_def Let_def tick_def status_requests_def nth_list_update)

lemma fold_fire_stopped:
  "stopped i s \<Longrightarrow>
   stopped i (fold fire js s) \<and> status_requests i (fold fire js s) = status_requests i s"
proof (induction js arbitrary: s)
  case Nil
  then show ?case by simp
next
  case (Cons j js)
  from fire_stopped [OF Cons.prems, of j]
  have a: "stopped i (fire j s)" and b: "status_requests i (fire j s) = status_requests i s"
    by simp_all
  from Cons.IH [OF a] b show ?case by simp
qed

lemma run_cleanup_stopped:
  "stopped i s \<Longrightarrow>
   stopped i (run_cleanup c s) \<and> status_requests i (run_cleanup c s) = status_requests i s"
  by (cases c) (auto simp: stopped_def clearInterval_nth)

lemma fold_cleanup_stopped:
  "stopped i s \<Longrightarrow>
   stopped i (fold run_cleanup cs s)
   \<and> status_requests i (fold run_cleanup cs s) = status_requests i s"
proof (induction cs arbitrary: s)
  case Nil
  then show ?case by simp
next
  case (Cons c cs)
  from run_cleanup_stopped [OF Cons.prems, of c]
  have a: "stopped i (run_cleanup c s)"
    and b: "status_requests i (run_cleanup c s) = status_requests i s"
    by simp_all
  from Cons.IH [OF a] b show ?case by simp
qed

lemma resume_stopped:
  assumes "stopped i s"
  shows "stopped i (resume k res s) \<and> status_requests i (resume k res s) = status_requests i s"
proof (cases k)
  case AwaitRun
  with assms show ?thesis
    by (cases res)
       (auto simp: stopped_def pollStatus_def setInterval_def status_requests_def nth_append)
next
  case (AwaitStatus j)
  with assms show ?thesis
    by (cases res)
       (auto simp: stopped_def Let_def fetchResults_def status_requests_send clearInterval_nth
          status_requests_def)
next
  case AwaitResults
  with assms show ?thesis
    by (cases res) (auto simp: stopped_def status_requests_def)
qed

lemma step_stopped:
  assumes "stopped i s"
  shows "stopped i (step ev s) \<and> status_requests i (step ev s) = status_requests i s"
proof (cases ev)
  case Mount
  with assms show ?thesis
    by (auto simp: effect_def fetchResults_def stopped_def status_requests_send)
next
  case Unmount
  have "stopped i (s\<lparr>cleanups := []\<rparr>)"
    using assms by (simp add: stopped_def)
  from fold_cleanup_stopped [OF this, of "cleanups s"] Unmount show ?thesis
    by (simp add: status_requests_def)
next
  case StartAnalysis
  with assms show ?thesis
    by (auto simp: startAnalysis_def stopped_def status_requests_send status_requests_def)
next
  case Refetch
  with assms show ?thesis
    by (auto simp: fetchResults_def stopped_def status_requests_send)
next
  case Elapse
  have "stopped i (s\<lparr>clock := clock s + 1\<rparr>)"
    using assms by (simp add: stopped_def)
  from fold_fire_stopped [OF this, of "[0..<length (intervals s)]"] Elapse show ?thesis
    by (simp add: fire_due_def status_requests_def)
next
  case (Settle rid rep)
  show ?thesis
  proof (cases "awaiting s rid")
    case None
    with Settle assms show ?thesis by simp
  next
    case (Some k)
    obtain b' res where ar: "api_settle rep (page s) = (b', res)"
      by (cases "api_settle rep (page s)")
    have "stopped i (s\<lparr>page := b', awaiting := (awaiting s)(rid := None)\<rparr>)"
      using assms by (simp add: stopped_def)
    from resume_stopped [OF this, of k res] Settle Some ar show ?thesis
      by (simp add: status_requests_def)
  qed
qed

lemma run_stopped:
  "stopped i s \<Longrightarrow>
   stopped i (run evs s) \<and> status_requests i (run evs s) = status_requests i s"
proof (induction evs arbitrary: s)
  case Nil
  then show ?case by simp
next
  case (Cons ev evs)
  from step_stopped [OF Cons.prems, of ev]
  have a: "stopped i (step ev s)" and b: "status_requests i (step ev s) = status_requests i s"
    by simp_all
  from Cons.IH [OF a] b show ?case by simp
qed

lemma well_formed_init: "well_formed (init pid b)"
  by (simp add: well_formed_def init_def)

lemma well_formed_send:
  assumes "well_formed s" and "\<And>i. k = AwaitStatus i \<Longrightarrow> i < length (intervals s)"
  shows "well_formed (send k m u s)"
  using assms by (auto simp: well_formed_def)

lemma well_formed_clearInterval: "well_formed s \<Longrightarrow> well_formed (clearInterval i s)"
  by (auto simp: well_formed_def)

lemma fire_length [simp]: "length (intervals (fire j s)) = length (intervals s)"
  by (simp add: fire_def Let_def tick_def)

lemma well_formed_fire:
  assumes "well_formed s" and "j < length (intervals s)"
  shows "well_formed (fire j s)"
proof (cases "active (intervals s ! j) \<and> due (intervals s ! j) = clock s")
  case True
  let ?s1 = "s\<lparr>intervals := (intervals s)[j := (intervals s ! j)\<lparr>due := due (intervals s ! j) + delay (intervals s ! j)\<rparr>]\<rparr>"
  have "well_formed ?s1" using assms(1) by (simp add: well_formed_def)
  then have "well_formed (tick j ?s1)"
    unfolding tick_def by (rule well_formed_send) (use assms(2) in simp)
  with True show ?thesis by (simp add: fire_def Let_def)
next
  case False
  with assms show ?thesis by (auto simp: fire_def Let_def)
qed

lemma well_formed_fold_fire:
  "well_formed s \<Longrightarrow> \<forall>j \<in> set js. j < length (intervals s) \<Longrightarrow> well_formed (fold fire js s)"
proof (induction js arbitrary: s)
  case Nil
  then show ?case by simp
next
  case (Cons j js)
  then have "well_formed (fire j s)" by (simp add: well_formed_fire)
  moreover have "\<forall>j' \<in> set js. j' < length (intervals (fire j s))"
    using Cons.prems by simp
  ultimately show ?case using Cons.IH by simp
qed

lemma well_formed_fold_cleanup: "well_formed s \<Longrightarrow> well_formed (fold run_cleanup cs s)"
proof (induction cs arbitrary: s)
  case Nil
  then show ?case by simp
next
  case (Cons c cs)
  then have "well_formed (run_cleanup c s)" by (cases c) (simp add: well_formed_clearInterval)
  with Cons.IH show ?case by simp
qed

lemma well_formed_resume: "well_formed s \<Longrightarrow> well_formed (resume k res s)"
proof (cases k)
  case AwaitRun
  assume "well_formed s"
  with AwaitRun show ?thesis
    by (cases res) (auto simp: well_formed_def pollStatus_def setInterval_def less_Suc_eq)
next
  case (AwaitStatus i)
  assume w: "well_formed s"
  show ?thesis
  proof (cases res)
    case (Inl err)
    with AwaitStatus w show ?thesis by (auto simp: well_formed_def)
  next
    case (Inr r)
    have "well_formed (s\<lparr>hook_status := data r ''status''\<rparr>)"
      using w by (simp add: well_formed_def)
    then have "well_formed (fetchResults (clearInterval i (s\<lparr>hook_status := data r ''status''\<rparr>)))"
      unfolding fetchResults_def by (intro well_formed_send well_formed_clearInterval) simp_all
    with Inr AwaitStatus w show ?thesis by (auto simp: Let_def well_formed_def)
  qed
next
  case AwaitResults
  assume "well_formed s"
  with AwaitResults show ?thesis by (cases res) (auto simp: well_formed_def)
qed

lemma well_formed_step: "well_formed s \<Longrightarrow> well_formed (step ev s)"
proof (cases ev)
  case Mount
  assume "well_formed s"
  with Mount show ?thesis by (auto simp: effect_def fetchResults_def intro: well_formed_send)
next
  case Unmount
  assume "well_formed s"
  then have "well_formed (s\<lparr>cleanups := []\<rparr>)" by (simp add: well_formed_def)
  with Unmount show ?thesis by (simp add: well_formed_fold_cleanup)
next
  case StartAnalysis
  assume "well_formed s"
  then have "well_formed (s\<lparr>hook_loading := True, hook_error := None\<rparr>)" by (simp add: well_formed_def)
  with StartAnalysis show ?thesis by (auto simp: startAnalysis_def intro: well_formed_send)
next
  case Refetch
  assume "well_formed s"
  with Refetch show ?thesis by (auto simp: fetchResults_def intro: well_formed_send)
next
  case Elapse
  assume "well_formed s"
  then have "well_formed (s\<lparr>clock := clock s + 1\<rparr>)" by (simp add: well_formed_def)
  with Elapse show ?thesis by (simp add: fire_due_def well_formed_fold_fire)
next
  case (Settle rid rep)
  assume w: "well_formed s"
  show ?thesis
  proof (cases "awaiting s rid")
    case None
    with Settle w show ?thesis by simp
  next
    case (Some k)
    obtain b' res where ar: "api_settle rep (page s) = (b', res)"
      by (cases "api_settle rep (page s)")
    have "well_formed (s\<lparr>page := b', awaiting := (awaiting s)(rid := None)\<rparr>)"
      using w by (auto simp: well_formed_def)
    with Settle Some ar show ?thesis by (simp add: well_formed_resume)
  qed
qed

lemma well_formed_run: "well_formed s \<Longrightarrow> well_formed (run evs s)"
  by (induction evs arbitrary: s) (simp_all add: well_formed_step)

lemma well_formed_reachable: "well_formed (run evs (init pid b))"
  by (simp add: well_formed_run well_formed_init)

lemma api_settle_snd: "snd (api_settle rep b) = axios_settle rep"
  by (simp add: api_settle_def split: sum.splits)

lemma step_Settle_awaiting:
  assumes "awaiting s rid = Some k"
  shows "step (Settle rid rep) s =
           resume k (axios_settle rep)
             (s\<lparr>page := fst (api_settle rep (page s)), awaiting := (awaiting s)(rid := None)\<rparr>)"
  using assms api_settle_snd [of rep "page s"]
  by (cases "api_settle rep (page s)") simp

lemma slots_map: "slots t0 n = map (\<lambda>k. t0 + 3000 * k) [1..<Suc n]"
  by (induction n) simp_all

lemma length_slots [simp]: "length (slots t0 n) = n"
  by (induction n) simp_all

lemma status_times_send:
  "status_times i (send k m u s) =
     status_times i s @ (if k = AwaitStatus i then [clock s] else [])"
  by (simp add: status_times_def status_requests_send)

lemma on_time_frame:
  assumes "on_time i t0 s" and "i < length (intervals s) \<Longrightarrow> i < length (intervals s')"
    and "intervals s' ! i = intervals s ! i"
    and "clock s' = clock s" and "status_times i s' = status_times i s"
  shows "on_time i t0 s'"
  using assms by (simp add: on_time_def scheduled_def)

lemma scheduled_frame:
  assumes "scheduled i t0 s" and "i < length (intervals s) \<Longrightarrow> i < length (intervals s')"
    and "intervals s' ! i = intervals s ! i"
    and "clock s' = clock s" and "status_times i s' = status_times i s"
  shows "scheduled i t0 s'"
  using assms by (simp add: scheduled_def)

lemma fire_clock [simp]: "clock (fire j s) = clock s"
  by (simp add: fire_def Let_def tick_def)

lemma fire_other:
  assumes "j \<noteq> i"
  shows "intervals (fire j s) ! i = intervals s ! i"
    and "status_times i (fire j s) = status_times i s"
  using assms
  by (auto simp: fire_def Let_def tick_def status_times_send status_times_def
      status_requests_def)

lemma scheduled_fire_other: "scheduled i t0 s \<Longrightarrow> j \<noteq> i \<Longrightarrow> scheduled i t0 (fire j s)"
  by (erule scheduled_frame) (simp_all add: fire_other)

lemma fire_not_due:
  "clock s < due (intervals s ! i) \<Longrightarrow> fire i s = s"
  by (simp add: fire_def Let_def)

lemma on_time_fire: "on_time i t0 s \<Longrightarrow> on_time i t0 (fire j s)"
proof (cases "j = i")
  case True
  assume "on_time i t0 s"
  with True show ?thesis by (simp add: on_time_def fire_not_due)
next
  case False
  assume "on_time i t0 s"
  then show ?thesis
    by (rule on_time_frame) (simp_all add: fire_other False)
qed

lemma scheduled_fire_self:
  assumes "scheduled i t0 s"
  shows "on_time i t0 (fire i s)"
proof (cases "due (intervals s ! i) = clock s")
  case True
  let ?t = "intervals s ! i"
  let ?s1 = "s\<lparr>intervals := (intervals s)[i := ?t\<lparr>due := due ?t + delay ?t\<rparr>]\<rparr>"
  have f: "fire i s = tick i ?s1"
    using assms True by (simp add: fire_def Let_def scheduled_def)
  have ts1: "status_times i ?s1 = status_times i s"
    by (simp add: status_times_def status_requests_def)
  have ts: "status_times i (fire i s) = status_times i s @ [clock s]"
    unfolding f tick_def by (simp add: status_times_send ts1)
  have iv: "intervals (fire i s) ! i = ?t\<lparr>due := due ?t + 3000\<rparr>"
    using assms unfolding f tick_def by (simp add: scheduled_def)
  have ln: "length (intervals (fire i s)) = length (intervals s)" by simp
  have ck: "clock (fire i s) = clock s"
    unfolding f tick_def by simp
  from assms True show ?thesis
    unfolding on_time_def scheduled_def ts iv ln ck by simp
next
  case False
  with assms have "clock s < due (intervals s ! i)" by (simp add: scheduled_def)
  with assms show ?thesis by (simp add: on_time_def fire_not_due)
qed

lemma on_time_fold_fire: "on_time i t0 s \<Longrightarrow> on_time i t0 (fold fire js s)"
  by (induction js arbitrary: s) (simp_all add: on_time_fire)

lemma scheduled_fold_fire:
  "scheduled i t0 s \<Longrightarrow> i \<in> set js \<Longrightarrow> on_time i t0 (fold fire js s)"
proof (induction js arbitrary: s)
  case Nil
  then show ?case by simp
next
  case (Cons j js)
  show ?case
  proof (cases "j = i")
    case True
    with Cons.prems have "on_time i t0 (fire j s)" by (simp add: scheduled_fire_self)
    then show ?thesis by (simp add: on_time_fold_fire)
  next
    case False
    with Cons.prems have "scheduled i t0 (fire j s)" and "i \<in> set js"
      by (simp_all add: scheduled_fire_other)
    then show ?thesis using Cons.IH by simp
  qed
qed

lemma on_time_Elapse:
  assumes "on_time i t0 s"
  shows "on_time i t0 (step Elapse s)"
proof -
  let ?s1 = "s\<lparr>clock := clock s + 1\<rparr>"
  have ts: "status_times i ?s1 = status_times i s"
    by (simp add: status_times_def status_requests_def)
  from assms have "scheduled i t0 ?s1"
    unfolding on_time_def scheduled_def ts by simp
  moreover have "i \<in> set [0..<length (intervals ?s1)]"
    using assms by (simp add: on_time_def scheduled_def)
  ultimately have "on_time i t0 (fold fire [0..<length (intervals ?s1)] ?s1)"
    by (rule scheduled_fold_fire)
  then show ?thesis by (simp add: fire_due_def)
qed

lemma on_time_cleanup:
  assumes "on_time i t0 s"
  shows "on_time i t0 (run_cleanup c s) \<or> stopped i (run_cleanup c s)"
proof (cases c)
  case (ClearInterval j)
  show ?thesis
  proof (cases "j = i")
    case True
    with assms ClearInterval show ?thesis
      by (simp add: on_time_def scheduled_def stopped_def clearInterval_nth)
  next
    case False
    from assms have "on_time i t0 (clearInterval j s)"
      by (rule on_time_frame)
         (use assms False in \<open>simp_all add: clearInterval_nth on_time_def scheduled_def status_times_def status_requests_def\<close>)
    with ClearInterval show ?thesis by simp
  qed
qed

lemma on_time_fold_cleanup:
  "on_time i t0 s \<Longrightarrow> on_time i t0 (fold run_cleanup cs s) \<or> stopped i (fold run_cleanup cs s)"
proof (induction cs arbitrary: s)
  case Nil
  then show ?case by simp
next
  case (Cons c cs)
  from on_time_cleanup [OF Cons.prems, of c] show ?case
  proof
    assume "on_time i t0 (run_cleanup c s)"
    then show ?thesis using Cons.IH by simp
  next
    assume "stopped i (run_cleanup c s)"
    then show ?thesis using fold_cleanup_stopped [of i "run_cleanup c s" cs] by simp
  qed
qed

lemma on_time_resume:
  assumes "on_time i t0 s"
  shows "on_time i t0 (resume k res s) \<or> stopped i (resume k res s)"
proof (cases k)
  case AwaitRun
  show ?thesis
  proof (cases res)
    case (Inl err)
    from assms have "on_time i t0 (resume k res s)"
      by (rule on_time_frame) (simp_all add: AwaitRun Inl status_times_def status_requests_def)
    then show ?thesis ..
  next
    case (Inr r)
    from assms have "on_time i t0 (resume k res s)"
      by (rule on_time_frame)
         (use assms in \<open>simp_all add: AwaitRun Inr status_times_def status_requests_def pollStatus_def
            setInterval_def nth_append on_time_def scheduled_def\<close>)
    then show ?thesis ..
  qed
next
  case (AwaitStatus j)
  have len: "i < length (intervals s)" using assms by (simp add: on_time_def scheduled_def)
  show ?thesis
  proof (cases "j = i")
    case True
    show ?thesis
    proof (cases res)
      case (Inl err)
      with True AwaitStatus len show ?thesis by (simp add: stopped_def clearInterval_nth)
    next
      case (Inr r)
      show ?thesis
      proof (cases "data r ''status'' = Some ''completed''")
        case True
        with \<open>j = i\<close> Inr AwaitStatus len show ?thesis
          by (simp add: stopped_def clearInterval_nth fetchResults_def)
      next
        case False
        from assms have "on_time i t0 (resume k res s)"
          by (rule on_time_frame) (simp_all add: AwaitStatus Inr False status_times_def status_requests_def)
        then show ?thesis ..
      qed
    qed
  next
    case False
    from assms have "on_time i t0 (resume k res s)"
    proof (rule on_time_frame)
      show "i < length (intervals (resume k res s))"
        using len by (cases res) (simp_all add: AwaitStatus Let_def fetchResults_def)
      show "intervals (resume k res s) ! i = intervals s ! i"
        using len False
        by (cases res) (simp_all add: AwaitStatus Let_def fetchResults_def clearInterval_nth)
      show "clock (resume k res s) = clock s"
        by (cases res) (simp_all add: AwaitStatus Let_def fetchResults_def)
      show "status_times i (resume k res s) = status_times i s"
        by (cases res)
           (simp_all add: AwaitStatus Let_def fetchResults_def status_times_send
              status_times_def status_requests_def)
    qed
    then show ?thesis ..
  qed
next
  case AwaitResults
  from assms have "on_time i t0 (resume k res s)"
    by (rule on_time_frame) (cases res; simp add: AwaitResults status_times_def status_requests_def)+
  then show ?thesis ..
qed

lemma on_time_step:
  assumes "on_time i t0 s"
  shows "on_time i t0 (step ev s) \<or> stopped i (step ev s)"
proof (cases ev)
  case Mount
  from assms have "on_time i t0 (step ev s)"
    by (rule on_time_frame)
       (simp_all add: Mount effect_def fetchResults_def status_times_send)
  then show ?thesis ..
next
  case Unmount
  from assms have "on_time i t0 (s\<lparr>cleanups := []\<rparr>)"
    by (rule on_time_frame) (simp_all add: status_times_def status_requests_def)
  from on_time_fold_cleanup [OF this, of "cleanups s"] Unmount show ?thesis by simp
next
  case StartAnalysis
  from assms have "on_time i t0 (step ev s)"
    by (rule on_time_frame)
       (simp_all add: StartAnalysis startAnalysis_def status_times_send status_times_def status_requests_def)
  then show ?thesis ..
next
  case Refetch
  from assms have "on_time i t0 (step ev s)"
    by (rule on_time_frame) (simp_all add: Refetch fetchResults_def status_times_send)
  then show ?thesis ..
next
  case Elapse
  with assms show ?thesis by (simp only: on_time_Elapse simp_thms)
next
  case (Settle rid rep)
  show ?thesis
  proof (cases "awaiting s rid")
    case None
    with Settle assms show ?thesis by simp
  next
    case (Some k)
    let ?s0 = "s\<lparr>page := fst (api_settle rep (page s)), awaiting := (awaiting s)(rid := None)\<rparr>"
    from assms have "on_time i t0 ?s0"
      by (rule on_time_frame) (simp_all add: status_times_def status_requests_def)
    from on_time_resume [OF this, of k "axios_settle rep"] Settle
      step_Settle_awaiting [OF Some, of rep]
    show ?thesis by simp
  qed
qed

lemma on_time_run: "on_time i t0 s \<Longrightarrow> on_time i t0 (run evs s) \<or> stopped i (run evs s)"
proof (induction evs arbitrary: s)
  case Nil
  then show ?case by simp
next
  case (Cons ev evs)
  from on_time_step [OF Cons.prems, of ev] show ?case
  proof
    assume "on_time i t0 (step ev s)"
    then show ?thesis using Cons.IH by simp
  next
    assume "stopped i (step ev s)"
    then show ?thesis using run_stopped [of i "step ev s" evs] by simp
  qed
qed

lemma fire_fields [simp]:
  "hook_status (fire j s) = hook_status s"
  "hook_error (fire j s) = hook_error s"
  by (simp_all add: fire_def Let_def tick_def)

lemma fold_fire_fields [simp]:
  "clock (fold fire js s) = clock s"
  "hook_status (fold fire js s) = hook_status s"
  "hook_error (fold fire js s) = hook_error s"
  "length (intervals (fold fire js s)) = length (intervals s)"
  by (induction js arbitrary: s) simp_all

lemma run_cleanup_fields [simp]:
  "clock (run_cleanup c s) = clock s"
  "hook_status (run_cleanup c s) = hook_status s"
  "hook_error (run_cleanup c s) = hook_error s"
  "sent (run_cleanup c s) = sent s"
  "length (intervals (run_cleanup c s)) = length (intervals s)"
  by (cases c; simp)+

lemma fold_cleanup_fields [simp]:
  "clock (fold run_cleanup cs s) = clock s"
  "hook_status (fold run_cleanup cs s) = hook_status s"
  "hook_error (fold run_cleanup cs s) = hook_error s"
  "sent (fold run_cleanup cs s) = sent s"
  "length (intervals (fold run_cleanup cs s)) = length (intervals s)"
  by (induction cs arbitrary: s) simp_all

lemma resume_clock [simp]: "clock (resume k res s) = clock s"
  by (cases k; cases res)
     (simp_all add: pollStatus_def setInterval_def Let_def fetchResults_def)

lemma step_clock: "clock (step ev s) = clock s + (if ev = Elapse then 1 else 0)"
proof (cases ev)
  case (Settle rid rep)
  then show ?thesis
    by (cases "awaiting s rid"; cases "api_settle rep (page s)") simp_all
qed (simp_all add: effect_def fetchResults_def startAnalysis_def fire_due_def)

lemma run_clock: "clock (run evs s) = clock s + count_list evs Elapse"
  by (induction evs arbitrary: s) (simp_all add: step_clock)

lemma fire_projectId [simp]: "projectId (fire j s) = projectId s"
  by (simp add: fire_def Let_def tick_def)

lemma fold_fire_projectId [simp]: "projectId (fold fire js s) = projectId s"
  by (induction js arbitrary: s) simp_all

lemma run_cleanup_projectId [simp]: "projectId (run_cleanup c s) = projectId s"
  by (cases c) simp

lemma fold_cleanup_projectId [simp]: "projectId (fold run_cleanup cs s) = projectId s"
  by (induction cs arbitrary: s) simp_all

lemma resume_projectId [simp]: "projectId (resume k res s) = projectId s"
  by (cases k; cases res)
     (simp_all add: pollStatus_def setInterval_def Let_def fetchResults_def)

lemma step_projectId [simp]: "projectId (step ev s) = projectId s"
proof (cases ev)
  case (Settle rid rep)
  then show ?thesis
    by (cases "awaiting s rid"; cases "api_settle rep (page s)") simp_all
qed (simp_all add: effect_def fetchResults_def startAnalysis_def fire_due_def)

lemma run_projectId [simp]: "projectId (run evs s) = projectId s"
  by (induction evs arbitrary: s) simp_all

lemma status_times_fresh:
  assumes "well_formed s"
  shows "status_times (length (intervals s)) s = []"
proof -
  have "\<forall>r \<in> set (sent s). kont r \<noteq> AwaitStatus (length (intervals s))"
    using assms by (auto simp: well_formed_def)
  then show ?thesis
    by (simp add: status_times_def status_requests_def filter_empty_conv)
qed

lemma step_registers:
  assumes "awaiting s rid = Some AwaitRun" and "axios_settle rep = Inr r"
  shows "intervals (step (Settle rid rep) s) =
           intervals s @ [\<lparr>delay = 3000, due = clock s + 3000, active = True\<rparr>]"
    and "sent (step (Settle rid rep) s) = sent s"
    and "clock (step (Settle rid rep) s) = clock s"
  using assms
  by (simp_all add: step_Settle_awaiting pollStatus_def setInterval_def del: step.simps)

lemma on_time_registered:
  assumes "well_formed s" and "awaiting s rid = Some AwaitRun" and "axios_settle rep = Inr r"
  shows "on_time (length (intervals s)) (clock s) (step (Settle rid rep) s)"
proof -
  let ?s1 = "step (Settle rid rep) s"
  have ts: "status_times (length (intervals s)) ?s1 = []"
    using status_times_fresh [OF assms(1)] step_registers(2) [OF assms(2,3)]
    by (simp add: status_times_def status_requests_def del: step.simps)
  show ?thesis
    unfolding on_time_def scheduled_def ts step_registers [OF assms(2,3)] by simp
qed

lemma slots_count:
  assumes "3000 * L \<le> n" and "n < 3000 * Suc L"
  shows "n div 3000 = (L::nat)"
  using assms by (simp add: div_nat_eqI mult.commute)

lemma on_time_times:
  assumes "on_time i t0 s" and "clock s = t0 + n"
  shows "status_times i s = map (\<lambda>k. t0 + 3000 * k) [1..<Suc (n div 3000)]"
proof -
  let ?L = "length (status_times i s)"
  from assms have "3000 * ?L \<le> n" and "n < 3000 * Suc ?L"
    by (simp_all add: on_time_def scheduled_def)
  then have d: "n div 3000 = ?L" by (rule slots_count)
  from assms(1) have a: "status_times i s = slots t0 ?L"
    by (simp add: on_time_def scheduled_def)
  show ?thesis
    unfolding d by (rule trans [OF a slots_map])
qed

lemma step_completed:
  assumes "awaiting s rid = Some (AwaitStatus j)" and "axios_settle rep = Inr r"
    and "data r ''status'' = Some ''completed''"
  shows "\<not> is_active j (step (Settle rid rep) s)"
    and "sent (step (Settle rid rep) s) =
           sent s @ [\<lparr>sent_at = clock s,
                       cfg = api_send (page s) ''GET'' (''/analysis/results/'' @ projectId s)
                               NoPayload Map.empty,
                       kont = AwaitResults\<rparr>]"
proof -
  have eq: "step (Settle rid rep) s =
          resume (AwaitStatus j) (axios_settle rep)
            (s\<lparr>page := fst (api_settle rep (page s)), awaiting := (awaiting s)(rid := None)\<rparr>)"
    using assms(1) by (rule step_Settle_awaiting)
  have pg: "fst (api_settle rep (page s)) = page s"
    using assms(2) by (simp add: api_settle_def)
  show "\<not> is_active j (step (Settle rid rep) s)"
    unfolding eq using assms(2,3)
    by (simp add: is_active_def fetchResults_def clearInterval_nth)
  show "sent (step (Settle rid rep) s) =
           sent s @ [\<lparr>sent_at = clock s,
                       cfg = api_send (page s) ''GET'' (''/analysis/results/'' @ projectId s)
                               NoPayload Map.empty,
                       kont = AwaitResults\<rparr>]"
    unfolding eq using assms(2,3) by (simp add: fetchResults_def pg)
qed

lemma fold_fire_quiet:
  "\<forall>j \<in> set js. \<not> (active (intervals s ! j) \<and> due (intervals s ! j) = clock s) \<Longrightarrow>
   fold fire js s = s"
  by (induction js) (auto simp: fire_def Let_def)

lemma run_Elapse_quiet:
  "\<forall>j < length (intervals s). active (intervals s ! j) \<longrightarrow> clock s + n < due (intervals s ! j) \<Longrightarrow>
   run (replicate n Elapse) s = s\<lparr>clock := clock s + n\<rparr>"
proof (induction n arbitrary: s)
  case 0
  then show ?case by simp
next
  case (Suc n)
  let ?s1 = "s\<lparr>clock := clock s + 1\<rparr>"
  have "fold fire [0..<length (intervals ?s1)] ?s1 = ?s1"
    by (rule fold_fire_quiet) (use Suc.prems in auto)
  then have st: "step Elapse s = ?s1" by (simp add: fire_due_def)
  have "run (replicate n Elapse) ?s1 = ?s1\<lparr>clock := clock ?s1 + n\<rparr>"
    by (rule Suc.IH) (use Suc.prems in auto)
  with st show ?case by simp
qed

lemma count_list_replicate_same [simp]: "count_list (replicate n x) x = n"
  by (induction n) simp_all

lemma replicate_3000: "replicate 3000 x = replicate 2999 x @ [x]"
  using replicate_add [of 2999 1 x] by simp

lemmas eval_defs =
  init_def startAnalysis_def send_def api_settle_def validateStatus_def pollStatus_def
  setInterval_def clearInterval_def fetchResults_def tick_def fire_def fire_due_def effect_def
  api_send_def request_fulfilled_def merge_config_def default_headers_def getItem_def
  response_rejected_def response_status_def

lemma polling_unfold:
  "polling =
     step Elapse
       ((run [StartAnalysis, Settle 0 (fulfilled Map.empty)] (init ''p1'' sample_page))
          \<lparr>clock := clock (run [StartAnalysis, Settle 0 (fulfilled Map.empty)]
                            (init ''p1'' sample_page)) + 2999\<rparr>)"
proof -
  let ?s1 = "run [StartAnalysis, Settle 0 (fulfilled Map.empty)] (init ''p1'' sample_page)"
  have q: "run (replicate 2999 Elapse) ?s1 = ?s1\<lparr>clock := clock ?s1 + 2999\<rparr>"
    by (rule run_Elapse_quiet) (simp add: eval_defs)
  show ?thesis
    by (simp only: replicate_3000 run_append q) (simp only: run_Cons run_Nil)
qed

lemma polling_fields:
  "awaiting polling 1 = Some (AwaitStatus 0)"
  "is_active 0 polling"
  "hook_status polling = Some ''processing''"
  "map kont (sent polling) = [AwaitRun, AwaitStatus 0]"
  "status_times 0 polling = [3000]"
  "intervals polling = [\<lparr>delay = 3000, due = 6000, active = True\<rparr>]"
  unfolding polling_unfold
  by (simp_all add: eval_defs is_active_def status_times_def status_requests_def)

lemma step_status:
  "hook_status (step ev s) = hook_status s
   \<or> (\<exists>rid rep r. ev = Settle rid rep \<and> axios_settle rep = Inr r
         \<and> awaiting s rid = Some AwaitRun \<and> hook_status (step ev s) = Some ''processing'')
   \<or> (\<exists>rid rep r i. ev = Settle rid rep \<and> axios_settle rep = Inr r
         \<and> awaiting s rid = Some (AwaitStatus i)
         \<and> hook_status (step ev s) = data r ''status'')"
proof (cases ev)
  case (Settle rid rep)
  show ?thesis
  proof (cases "awaiting s rid")
    case None
    with Settle show ?thesis by simp
  next
    case (Some k)
    have eq: "step (Settle rid rep) s =
          resume k (axios_settle rep)
            (s\<lparr>page := fst (api_settle rep (page s)), awaiting := (awaiting s)(rid := None)\<rparr>)"
      using Some by (rule step_Settle_awaiting)
    show ?thesis
    proof (cases "axios_settle rep")
      case (Inl err)
      with eq Settle show ?thesis by (cases k) simp_all
    next
      case (Inr r)
      show ?thesis
      proof (cases k)
        case AwaitRun
        with eq Settle Inr Some show ?thesis
          by (simp add: pollStatus_def setInterval_def del: step.simps)
      next
        case (AwaitStatus i)
        with eq Settle Inr Some show ?thesis
          by (simp add: Let_def fetchResults_def del: step.simps)
      next
        case AwaitResults
        with eq Settle Inr show ?thesis by simp
      qed
    qed
  qed
qed (simp_all add: effect_def fetchResults_def startAnalysis_def fire_due_def)

lemma step_enum:
  assumes "hook_status s \<in> status_enum" and "enum_reply s ev"
  shows "hook_status (step ev s) \<in> status_enum"
  using step_status [of ev s] assms
  by (auto simp: enum_reply_def status_enum_def simp del: step.simps)

lemma run_enum:
  "hook_status s \<in> status_enum \<Longrightarrow> enum_replies evs s \<Longrightarrow>
   hook_status (run evs s) \<in> status_enum"
  by (induction evs arbitrary: s) (simp_all add: step_enum del: step.simps)

lemma enum_replies_append:
  "enum_replies (xs @ ys) s \<longleftrightarrow> enum_replies xs s \<and> enum_replies ys (run xs s)"
  by (induction xs arbitrary: s) simp_all

lemma enum_replies_Elapse: "enum_replies (replicate n Elapse) s"
  by (induction n arbitrary: s) (simp_all add: enum_reply_def)

lemma axios_settle_fulfilled: "axios_settle (fulfilled d) = Inr \<lparr>status = 200, data = d\<rparr>"
  by (simp add: validateStatus_def)

lemma enum_reply_status:
  assumes "awaiting s rid = Some (AwaitStatus i)" and "axios_settle rep = Inr r"
    and "data r ''status'' \<in> status_enum"
  shows "enum_reply s (Settle rid rep)"
  using assms by (simp add: enum_reply_def)

lemma step_status_reply:
  assumes "awaiting s rid = Some (AwaitStatus i)" and "axios_settle rep = Inr r"
  shows "hook_status (step (Settle rid rep) s) = data r ''status''"
  using assms(2)
  by (simp add: step_Settle_awaiting [OF assms(1)] Let_def fetchResults_def del: step.simps)

lemma step_run_reply:
  assumes "awaiting s rid = Some AwaitRun" and "axios_settle rep = Inr r"
  shows "hook_status (step (Settle rid rep) s) = Some ''processing''"
  using assms(2)
  by (simp add: step_Settle_awaiting [OF assms(1)] pollStatus_def setInterval_def
      del: step.simps)

lemma startAnalysis_awaiting:
  "awaiting (step StartAnalysis s) (length (sent s)) = Some AwaitRun"
  by (simp add: startAnalysis_def)

lemma run_then_3000:
  assumes "\<forall>j < length (intervals (run xs s0)).
             active (intervals (run xs s0) ! j) \<longrightarrow>
               clock (run xs s0) + 2999 < due (intervals (run xs s0) ! j)"
  shows "run (xs @ replicate 3000 Elapse) s0 =
           step Elapse ((run xs s0)\<lparr>clock := clock (run xs s0) + 2999\<rparr>)"
proof -
  have q: "run (replicate 2999 Elapse) (run xs s0) =
             (run xs s0)\<lparr>clock := clock (run xs s0) + 2999\<rparr>"
    using assms by (rule run_Elapse_quiet)
  show ?thesis
    by (simp only: replicate_3000 run_append q) (simp only: run_Cons run_Nil)
qed

lemma api_send_fields [simp]:
  "http_method (api_send b m u d hs) = m"
  "url (api_send b m u d hs) = u"
  "payload (api_send b m u d hs) = d"
  by (simp_all add: api_send_def request_fulfilled_def merge_config_def Let_def)

lemma fire_frame [simp]:
  "page (fire j s) = page s"
  "cleanups (fire j s) = cleanups s"
  by (simp_all add: fire_def Let_def tick_def)

lemma fold_fire_frame [simp]:
  "page (fold fire js s) = page s"
  "cleanups (fold fire js s) = cleanups s"
  by (induction js arbitrary: s) simp_all

lemma sent_fire:
  "sent (fire j s) =
     sent s @
       (if active (intervals s ! j) \<and> due (intervals s ! j) = clock s
        then [\<lparr>sent_at = clock s,
               cfg = api_send (page s) ''GET'' (''/analysis/status/'' @ projectId s)
                       NoPayload Map.empty,
               kont = AwaitStatus j\<rparr>]
        else [])"
  by (simp add: fire_def Let_def tick_def)

lemma fire_nth_other: "i \<noteq> j \<Longrightarrow> intervals (fire j s) ! i = intervals s ! i"
  by (simp add: fire_def Let_def tick_def)

lemma sent_fold_fire:
  "distinct js \<Longrightarrow>
   sent (fold fire js s) =
     sent s @
       map (\<lambda>i. \<lparr>sent_at = clock s,
                   cfg = api_send (page s) ''GET'' (''/analysis/status/'' @ projectId s)
                           NoPayload Map.empty,
                   kont = AwaitStatus i\<rparr>)
         (filter (\<lambda>i. active (intervals s ! i) \<and> due (intervals s ! i) = clock s) js)"
proof (induction js arbitrary: s)
  case Nil
  then show ?case by simp
next
  case (Cons j js)
  have same: "filter (\<lambda>i. active (intervals (fire j s) ! i)
                          \<and> due (intervals (fire j s) ! i) = clock s) js
              = filter (\<lambda>i. active (intervals s ! i) \<and> due (intervals s ! i) = clock s) js"
  proof (intro filter_cong refl)
    fix i assume "i \<in> set js"
    with Cons.prems have "i \<noteq> j" by auto
    then show "(active (intervals (fire j s) ! i)
                  \<and> due (intervals (fire j s) ! i) = clock s)
               = (active (intervals s ! i) \<and> due (intervals s ! i) = clock s)"
      by (simp add: fire_nth_other)
  qed
  from Cons.prems have "distinct js" by simp
  from Cons.IH [OF this, of "fire j s"] show ?case
    by (simp add: same sent_fire)
qed

lemma sent_Elapse:
  "sent (step Elapse s) =
     sent s @
       map (\<lambda>i. \<lparr>sent_at = clock s + 1,
                   cfg = api_send (page s) ''GET'' (''/analysis/status/'' @ projectId s)
                           NoPayload Map.empty,
                   kont = AwaitStatus i\<rparr>)
         (filter (\<lambda>i. active (intervals s ! i) \<and> due (intervals s ! i) = clock s + 1)
            [0..<length (intervals s)])"
  by (simp add: fire_due_def sent_fold_fire)

lemma status_shape_frame:
  assumes "status_shape s" and "projectId s' = projectId s"
    and "\<exists>rs. sent s' = sent s @ rs \<and> (\<forall>r \<in> set rs. \<forall>i. kont r = AwaitStatus i \<longrightarrow>
           http_method (cfg r) = ''GET'' \<and> url (cfg r) = ''/analysis/status/'' @ projectId s)"
  shows "status_shape s'"
  using assms by (auto simp: status_shape_def)

lemma sent_fold_cleanup_same: "sent (fold run_cleanup cs s) = sent s"
  by simp

lemma status_shape_step:
  assumes "status_shape s"
  shows "status_shape (step ev s)"
  using assms
proof (rule status_shape_frame)
  show "projectId (step ev s) = projectId s" by simp
  show "\<exists>rs. sent (step ev s) = sent s @ rs \<and> (\<forall>r \<in> set rs. \<forall>i. kont r = AwaitStatus i \<longrightarrow>
           http_method (cfg r) = ''GET'' \<and> url (cfg r) = ''/analysis/status/'' @ projectId s)"
  proof (cases ev)
    case Mount
    then show ?thesis by (simp add: effect_def fetchResults_def)
  next
    case Unmount
    then show ?thesis by simp
  next
    case StartAnalysis
    then show ?thesis by (simp add: startAnalysis_def)
  next
    case Refetch
    then show ?thesis by (simp add: fetchResults_def)
  next
    case Elapse
    then show ?thesis by (auto simp only: sent_Elapse) auto
  next
    case (Settle rid rep)
    show ?thesis
    proof (cases "awaiting s rid")
      case None
      with Settle show ?thesis by simp
    next
      case (Some k)
      have eq: "step (Settle rid rep) s =
          resume k (axios_settle rep)
            (s\<lparr>page := fst (api_settle rep (page s)), awaiting := (awaiting s)(rid := None)\<rparr>)"
        using Some by (rule step_Settle_awaiting)
      show ?thesis
        unfolding Settle eq
        by (cases k; cases "axios_settle rep")
           (simp_all add: pollStatus_def setInterval_def Let_def fetchResults_def)
    qed
  qed
qed

lemma status_shape_run: "status_shape s \<Longrightarrow> status_shape (run evs s)"
  by (induction evs arbitrary: s) (simp_all add: status_shape_step del: step.simps)

lemma status_shape_reachable: "status_shape (run evs (init pid b))"
  by (rule status_shape_run) (simp add: status_shape_def init_def)

lemma resume_cleanups [simp]: "cleanups (resume k res s) = cleanups s"
  by (cases k; cases res)
     (simp_all add: pollStatus_def setInterval_def Let_def fetchResults_def)

lemma step_cleanups:
  assumes "cleanups s = []"
  shows "cleanups (step ev s) = []"
proof (cases ev)
  case (Settle rid rep)
  with assms show ?thesis
    by (cases "awaiting s rid"; cases "api_settle rep (page s)") simp_all
next
  case Unmount
  have "cleanups (fold run_cleanup cs w) = cleanups w" for cs w
    by (induction cs arbitrary: w) (simp_all, case_tac a, simp)
  with Unmount show ?thesis by simp
qed (use assms in \<open>simp_all add: effect_def fetchResults_def startAnalysis_def fire_due_def\<close>)

lemma run_cleanups: "cleanups s = [] \<Longrightarrow> cleanups (run evs s) = []"
  by (induction evs arbitrary: s) (simp_all add: step_cleanups del: step.simps)

lemma cleanups_reachable: "cleanups (run evs (init pid b)) = []"
  by (rule run_cleanups) (simp add: init_def)

lemma is_active_fire [simp]: "is_active i (fire j s) = is_active i s"
  by (cases "i = j")
     (auto simp: is_active_def fire_def Let_def tick_def nth_list_update)

lemma is_active_fold_fire [simp]: "is_active i (fold fire js s) = is_active i s"
  by (induction js arbitrary: s) simp_all

lemma is_active_resume:
  assumes "is_active i s"
    and "\<And>j. k = AwaitStatus j \<Longrightarrow>
           j \<noteq> i \<or> (case res of Inr r \<Rightarrow> data r ''status'' \<noteq> Some ''completed''
                        | Inl err \<Rightarrow> False)"
  shows "is_active i (resume k res s)"
proof (cases k)
  case AwaitRun
  with assms(1) show ?thesis
    by (cases res) (auto simp: is_active_def pollStatus_def setInterval_def nth_append)
next
  case (AwaitStatus j)
  from assms(2) [OF this] assms(1) AwaitStatus show ?thesis
    by (cases res)
       (auto simp: is_active_def Let_def fetchResults_def clearInterval_nth)
next
  case AwaitResults
  with assms(1) show ?thesis by (cases res) (auto simp: is_active_def)
qed

lemma is_active_step:
  assumes "is_active i s" and "cleanups s = []" and "lets_poll i s ev"
  shows "is_active i (step ev s)"
proof (cases ev)
  case (Settle rid rep)
  show ?thesis
  proof (cases "awaiting s rid")
    case None
    with Settle assms(1) show ?thesis by simp
  next
    case (Some k)
    let ?s0 = "s\<lparr>page := fst (api_settle rep (page s)), awaiting := (awaiting s)(rid := None)\<rparr>"
    have eq: "step (Settle rid rep) s = resume k (axios_settle rep) ?s0"
      using Some by (rule step_Settle_awaiting)
    have "is_active i ?s0" using assms(1) by (simp add: is_active_def)
    then have "is_active i (resume k (axios_settle rep) ?s0)"
    proof (rule is_active_resume)
      fix j assume "k = AwaitStatus j"
      with assms(3) Settle Some
      show "j \<noteq> i \<or> (case axios_settle rep of
                        Inr r \<Rightarrow> data r ''status'' \<noteq> Some ''completed''
                      | Inl err \<Rightarrow> False)"
        by (simp add: lets_poll_def)
    qed
    with eq Settle show ?thesis by simp
  qed
next
  case Elapse
  have "is_active i (s\<lparr>clock := clock s + 1\<rparr>)"
    using assms(1) by (simp add: is_active_def)
  with Elapse show ?thesis by (simp add: fire_due_def)
qed (use assms in \<open>auto simp: effect_def fetchResults_def startAnalysis_def is_active_def\<close>)

lemma is_active_run:
  "is_active i s \<Longrightarrow> cleanups s = [] \<Longrightarrow> keeps_polling i evs s \<Longrightarrow> is_active i (run evs s)"
proof (induction evs arbitrary: s)
  case Nil
  then show ?case by simp
next
  case (Cons ev evs)
  from Cons.prems have a: "is_active i (step ev s)"
    by (simp add: is_active_step del: step.simps)
  from Cons.prems have b: "cleanups (step ev s) = []"
    by (simp add: step_cleanups del: step.simps)
  from Cons.prems have c: "keeps_polling i evs (step ev s)" by simp
  from Cons.IH [OF a b c] show ?case by simp
qed

lemma keeps_polling_append:
  "keeps_polling i (xs @ ys) s \<longleftrightarrow> keeps_polling i xs s \<and> keeps_polling i ys (run xs s)"
  by (induction xs arbitrary: s) simp_all

lemma keeps_polling_Elapse: "keeps_polling i (replicate n Elapse) s"
  by (induction n arbitrary: s) (simp_all add: lets_poll_def)

lemma map_triples:
  assumes "map sent_at rs = map f ks"
    and "\<forall>r \<in> set rs. http_method (cfg r) = m \<and> url (cfg r) = u"
  shows "map (\<lambda>r. (sent_at r, http_method (cfg r), url (cfg r))) rs = map (\<lambda>k. (f k, m, u)) ks"
  using assms
proof (induction rs arbitrary: ks)
  case Nil
  then show ?case by simp
next
  case (Cons r rs)
  then obtain k ks' where "ks = k # ks'" by (cases ks) auto
  with Cons show ?case by auto
qed

lemma run_3000_quiet:
  assumes "\<forall>j < length (intervals w).
             active (intervals w ! j) \<longrightarrow> clock w + 2999 < due (intervals w ! j)"
  shows "run (replicate 3000 Elapse) w = step Elapse (w\<lparr>clock := clock w + 2999\<rparr>)"
proof -
  have q: "run (replicate 2999 Elapse) w = w\<lparr>clock := clock w + 2999\<rparr>"
    using assms by (rule run_Elapse_quiet)
  show ?thesis
    by (simp only: replicate_3000 run_append q) (simp only: run_Cons run_Nil)
qed

lemma polled_twice_unfold:
  "polled_twice =
     step Elapse
       ((step (Settle 1 (fulfilled [''status'' \<mapsto> ''processing''])) polling)
          \<lparr>clock := clock (step (Settle 1 (fulfilled [''status'' \<mapsto> ''processing''])) polling)
                      + 2999\<rparr>)"
proof -
  let ?w = "step (Settle 1 (fulfilled [''status'' \<mapsto> ''processing''])) polling"
  have "run (replicate 3000 Elapse) ?w = step Elapse (?w\<lparr>clock := clock ?w + 2999\<rparr>)"
    by (rule run_3000_quiet) (unfold polling_unfold, simp add: eval_defs)
  then show ?thesis
    by (simp only: run_append run_Cons run_Nil)
qed

lemma polled_twice_fields:
  "awaiting polled_twice 2 = Some (AwaitStatus 0)"
  "map kont (sent polled_twice) = [AwaitRun, AwaitStatus 0, AwaitStatus 0]"
  "hook_status polled_twice = Some ''processing''"
  unfolding polled_twice_unfold polling_unfold
  by (simp_all add: eval_defs)

lemma lets_poll_status:
  assumes "awaiting s rid = Some (AwaitStatus j)" and "axios_settle rep = Inr r"
    and "data r ''status'' \<noteq> Some ''completed''"
  shows "lets_poll i s (Settle rid rep)"
  using assms by (simp add: lets_poll_def)

section \<open>Properties of the polling hook\<close>



text \<open>
  Claim C3. When the request of \<^verbatim>\<open>startAnalysis\<close> is fulfilled at time \<open>t\<close>, an interval
  with a delay of 3000 ms is registered, first due at \<open>t + 3000\<close>. It stays active as long
  as none of its status requests is rejected or answered with \<^verbatim>\<open>completed\<close>, and while
  it is active the status requests of its loop are exactly one
  \<^verbatim>\<open>GET /analysis/status/<projectId>\<close> at each of the times \<open>t + 3000\<close>, \<open>t + 6000\<close>,
  ..., for every 3000 ms that have passed. A millisecond sends one such request for each
  active interval that is due, and nothing else. When a status request is fulfilled with
  the status \<^verbatim>\<open>completed\<close>, that event clears the interval and then sends exactly one
  request, the fetch of the results of the project.
\<close>

theorem poll_every_3000_then_one_fetch:
  assumes "s = run pre (init pid b)"
    and "awaiting s rid = Some AwaitRun" and "axios_settle rep = Inr r"
    and "s' = run mid (step (Settle rid rep) s)"
    and "awaiting s' rid' = Some (AwaitStatus j)"
    and "axios_settle rep' = Inr r'" and "data r' ''status'' = Some ''completed''"
  shows "intervals (step (Settle rid rep) s) =
           intervals s @ [\<lparr>delay = 3000, due = clock s + 3000, active = True\<rparr>]
         \<and> (keeps_polling (length (intervals s)) mid (step (Settle rid rep) s) \<longrightarrow>
              is_active (length (intervals s)) s')
         \<and> (is_active (length (intervals s)) s' \<longrightarrow>
              map (\<lambda>q. (sent_at q, http_method (cfg q), url (cfg q)))
                (status_requests (length (intervals s)) s') =
              map (\<lambda>k. (clock s + 3000 * k, ''GET'', ''/analysis/status/'' @ pid))
                [1..<Suc (count_list mid Elapse div 3000)])
         \<and> sent (step Elapse w) =
             sent w @
               map (\<lambda>i. \<lparr>sent_at = clock w + 1,
                           cfg = api_send (page w) ''GET'' (''/analysis/status/'' @ projectId w)
                                   NoPayload Map.empty,
                           kont = AwaitStatus i\<rparr>)
                 (filter (\<lambda>i. active (intervals w ! i) \<and> due (intervals w ! i) = clock w + 1)
                    [0..<length (intervals w)])
         \<and> \<not> is_active j (step (Settle rid' rep') s')
         \<and> sent (step (Settle rid' rep') s') =
             sent s' @ [\<lparr>sent_at = clock s',
                          cfg = api_send (page s') ''GET'' (''/analysis/results/'' @ pid)
                                  NoPayload Map.empty,
                          kont = AwaitResults\<rparr>]"
proof -
  let ?i = "length (intervals s)"
  let ?s1 = "step (Settle rid rep) s"
  have "well_formed s" using assms(1) by (simp add: well_formed_reachable)
  then have g: "on_time ?i (clock s) ?s1"
    using assms(2,3) by (rule on_time_registered)
  have ck: "clock s' = clock s + count_list mid Elapse"
    unfolding assms(4) run_clock step_registers(3) [OF assms(2,3)] ..
  have s1: "?s1 = run (pre @ [Settle rid rep]) (init pid b)"
    by (simp only: assms(1) run_append run_Cons run_Nil)
  have s': "s' = run (pre @ [Settle rid rep] @ mid) (init pid b)"
    by (simp only: assms(1,4) run_append run_Cons run_Nil)
  have pid: "projectId s' = pid"
    by (simp add: assms(1,4) init_def del: step.simps)
  have stays: "is_active ?i s'" if kp: "keeps_polling ?i mid ?s1"
  proof -
    have "is_active ?i ?s1"
      by (simp add: is_active_def step_registers(1) [OF assms(2,3)] del: step.simps)
    moreover have "cleanups ?s1 = []"
      unfolding s1 by (rule cleanups_reachable)
    ultimately show ?thesis
      unfolding assms(4) using kp by (rule is_active_run)
  qed
  have timing: "map (\<lambda>q. (sent_at q, http_method (cfg q), url (cfg q))) (status_requests ?i s') =
      map (\<lambda>k. (clock s + 3000 * k, ''GET'', ''/analysis/status/'' @ pid))
        [1..<Suc (count_list mid Elapse div 3000)]"
    if act: "is_active ?i s'"
  proof -
    from on_time_run [OF g, of mid] have "on_time ?i (clock s) s'"
    proof
      assume "on_time ?i (clock s) (run mid ?s1)"
      then show ?thesis by (simp only: assms(4))
    next
      assume "stopped ?i (run mid ?s1)"
      with act show ?thesis by (simp add: assms(4) stopped_def is_active_def)
    qed
    then have "status_times ?i s' =
        map (\<lambda>k. clock s + 3000 * k) [1..<Suc (count_list mid Elapse div 3000)]"
      using ck by (rule on_time_times)
    then have a: "map sent_at (status_requests ?i s') =
        map (\<lambda>k. clock s + 3000 * k) [1..<Suc (count_list mid Elapse div 3000)]"
      by (simp only: status_times_def)
    have "status_shape s'"
      unfolding s' by (rule status_shape_reachable)
    then have b: "\<forall>q \<in> set (status_requests ?i s').
        http_method (cfg q) = ''GET'' \<and> url (cfg q) = ''/analysis/status/'' @ pid"
      by (auto simp: status_shape_def status_requests_def pid)
    from a b show ?thesis by (rule map_triples)
  qed
  from step_registers(1) [OF assms(2,3)] stays timing sent_Elapse [of w]
    step_completed [OF assms(5,6,7)] pid
  show ?thesis by (simp del: step.simps)
qed

theorem poll_every_3000_then_one_fetch_witness:
  "awaiting (run [StartAnalysis] (init ''p1'' sample_page)) 0 = Some AwaitRun
   \<and> keeps_polling 0
       (replicate 3000 Elapse @ [Settle 1 (fulfilled [''status'' \<mapsto> ''processing''])]
          @ replicate 3000 Elapse)
       (step (Settle 0 (fulfilled Map.empty)) (run [StartAnalysis] (init ''p1'' sample_page)))
   \<and> awaiting polled_twice 2 = Some (AwaitStatus 0)
   \<and> is_active 0 polled_twice
   \<and> map (\<lambda>q. (sent_at q, http_method (cfg q), url (cfg q))) (status_requests 0 polled_twice)
       = [(3000, ''GET'', ''/analysis/status/p1''), (6000, ''GET'', ''/analysis/status/p1'')]
   \<and> \<not> is_active 0 (step (Settle 2 (fulfilled [''status'' \<mapsto> ''completed''])) polled_twice)
   \<and> map kont (sent (step (Settle 2 (fulfilled [''status'' \<mapsto> ''completed''])) polled_twice))
       = [AwaitRun, AwaitStatus 0, AwaitStatus 0, AwaitResults]"
proof -
  let ?s = "run [StartAnalysis] (init ''p1'' sample_page)"
  let ?s1 = "step (Settle 0 (fulfilled Map.empty)) ?s"
  let ?mid = "replicate 3000 Elapse @ [Settle 1 (fulfilled [''status'' \<mapsto> ''processing''])]
                @ replicate 3000 Elapse"
  let ?s' = "run ?mid ?s1"
  let ?done = "Settle 2 (fulfilled [''status'' \<mapsto> ''completed''])"
  have p: "?s' = polled_twice"
    by (simp only: run_append run_Cons run_Nil)
  have pp: "run (replicate 3000 Elapse) ?s1 = polling"
    by (simp only: run_append run_Cons run_Nil)
  have l0: "length (intervals ?s) = 0" and c0: "clock ?s = 0"
    by (simp_all add: eval_defs)
  have h2: "awaiting ?s 0 = Some AwaitRun"
    by (simp add: eval_defs)
  have "lets_poll 0 polling (Settle 1 (fulfilled [''status'' \<mapsto> ''processing'']))"
    by (rule lets_poll_status [OF polling_fields(1) axios_settle_fulfilled]) simp
  then have kp: "keeps_polling 0 ?mid ?s1"
    by (simp only: keeps_polling_append keeps_polling_Elapse keeps_polling.simps pp simp_thms)
  have h5: "awaiting ?s' 2 = Some (AwaitStatus 0)"
    unfolding p by (rule polled_twice_fields(1))
  have h7: "data \<lparr>status = 200, data = [''status'' \<mapsto> ''completed'']\<rparr> ''status''
              = Some ''completed''"
    by simp
  note th = poll_every_3000_then_one_fetch
         [OF refl h2 axios_settle_fulfilled refl h5 axios_settle_fulfilled h7, unfolded l0 c0]
  from th kp have act: "is_active 0 ?s'" by blast
  from act th have "map (\<lambda>q. (sent_at q, http_method (cfg q), url (cfg q))) (status_requests 0 ?s')
       = map (\<lambda>k. (0 + 3000 * k, ''GET'', ''/analysis/status/'' @ ''p1''))
           [1..<Suc (count_list ?mid Elapse div 3000)]"
    by blast
  moreover have "[Suc 0..<3] = [Suc 0, 2]"
    by code_simp
  ultimately have tm: "map (\<lambda>q. (sent_at q, http_method (cfg q), url (cfg q))) (status_requests 0 ?s')
       = [(3000, ''GET'', ''/analysis/status/p1''), (6000, ''GET'', ''/analysis/status/p1'')]"
    by (simp del: run_append run_Cons step.simps)
  from th have c: "\<not> is_active 0 (step ?done ?s')"
    and "sent (step ?done ?s') =
           sent ?s' @ [\<lparr>sent_at = clock ?s',
                          cfg = api_send (page ?s') ''GET'' (''/analysis/results/'' @ ''p1'')
                                  NoPayload Map.empty,
                          kont = AwaitResults\<rparr>]"
    by blast+
  then have "map kont (sent (step ?done ?s')) = map kont (sent ?s') @ [AwaitResults]"
    by (simp del: run_append run_Cons step.simps)
  then have d: "map kont (sent (step ?done ?s'))
                  = [AwaitRun, AwaitStatus 0, AwaitStatus 0, AwaitResults]"
    unfolding p by (simp only: polled_twice_fields(2)) simp
  from h2 kp h5 act tm c d show ?thesis
    unfolding p by blast
qed

text \<open>
  Claim C4 asks that the teardown of the view clears the polling interval. The code does
  not: the effect of the hook registers no function for the teardown, and the function that
  \<^verbatim>\<open>pollStatus\<close> returns for that purpose is dropped by \<^verbatim>\<open>startAnalysis\<close>. For the view
  of project \<^verbatim>\<open>p1\<close> that is mounted, starts an analysis and is unmounted once the start
  is fulfilled, no teardown function is registered, the interval is still active after the
  teardown, and 3000 ms later it issues a status request.
\<close>

theorem unmount_keeps_polling:
  "cleanups (run [Mount, StartAnalysis, Settle 1 (fulfilled Map.empty)]
               (init ''p1'' sample_page)) = []
   \<and> is_active 0 (run [Mount, StartAnalysis, Settle 1 (fulfilled Map.empty), Unmount]
                    (init ''p1'' sample_page))
   \<and> map (\<lambda>r. (sent_at r, url (cfg r)))
       (sent (run ([Mount, StartAnalysis, Settle 1 (fulfilled Map.empty), Unmount]
                     @ replicate 3000 Elapse)
                (init ''p1'' sample_page)))
     = [(0, ''/analysis/results/p1''), (0, ''/analysis/run/p1''),
        (3000, ''/analysis/status/p1'')]"
proof -
  have "run ([Mount, StartAnalysis, Settle 1 (fulfilled Map.empty), Unmount]
                     @ replicate 3000 Elapse) (init ''p1'' sample_page) =
        step Elapse
          ((run [Mount, StartAnalysis, Settle 1 (fulfilled Map.empty), Unmount]
              (init ''p1'' sample_page))
             \<lparr>clock := clock (run [Mount, StartAnalysis, Settle 1 (fulfilled Map.empty), Unmount]
                                (init ''p1'' sample_page)) + 2999\<rparr>)"
    by (rule run_then_3000) (simp add: eval_defs)
  then show ?thesis
    by (simp add: eval_defs is_active_def)
qed

text \<open>
  Claim C7. When a status request of the polling loop is rejected, the message of the
  error becomes the error of the hook, and the status keeps the value it had: it is not
  set back to \<^verbatim>\<open>not_started\<close>.
\<close>

theorem status_failure_surfaced:
  assumes "awaiting s rid = Some (AwaitStatus i)" and "axios_settle rep = Inl err"
  shows "hook_error (step (Settle rid rep) s) = Some (message err)
         \<and> hook_status (step (Settle rid rep) s) = hook_status s"
proof -
  have "step (Settle rid rep) s =
          resume (AwaitStatus i) (axios_settle rep)
            (s\<lparr>page := fst (api_settle rep (page s)), awaiting := (awaiting s)(rid := None)\<rparr>)"
    using assms(1) by (rule step_Settle_awaiting)
  with assms(2) show ?thesis by simp
qed

theorem status_failure_surfaced_witness:
  "awaiting polling 1 = Some (AwaitStatus 0)
   \<and> axios_settle (NetworkError ''Network Error'')
       = Inl \<lparr>message = ''Network Error'', response = None\<rparr>
   \<and> hook_error (step (Settle 1 (NetworkError ''Network Error'')) polling)
       = Some ''Network Error''
   \<and> hook_status (step (Settle 1 (NetworkError ''Network Error'')) polling)
       = Some ''processing''"
proof -
  have h2: "axios_settle (NetworkError ''Network Error'')
       = Inl \<lparr>message = ''Network Error'', response = None\<rparr>"
    by simp
  from status_failure_surfaced [OF polling_fields(1) h2] polling_fields(1) polling_fields(3) h2
  show ?thesis by (simp del: step.simps run_append run_Cons)
qed

text \<open>
  Claim C8, as the code has it. The status is \<^verbatim>\<open>not_started\<close> at first; an event leaves
  it as it is, or sets it to \<^verbatim>\<open>processing\<close> when the request of \<^verbatim>\<open>startAnalysis\<close> is
  fulfilled, or sets it to the status of a fulfilled status request, whatever that value
  is. So after every sequence of events in which the fulfilled status requests carry
  values of the enumeration, the status is a value of the enumeration.
\<close>

theorem status_tracks_replies:
  assumes "enum_replies evs (init pid b)"
  shows "hook_status (init pid b) = Some ''not_started''
         \<and> hook_status (run evs (init pid b)) \<in> status_enum
         \<and> (hook_status (step ev s) = hook_status s
            \<or> (\<exists>rid rep r. ev = Settle rid rep \<and> axios_settle rep = Inr r
                  \<and> awaiting s rid = Some AwaitRun
                  \<and> hook_status (step ev s) = Some ''processing'')
            \<or> (\<exists>rid rep r i. ev = Settle rid rep \<and> axios_settle rep = Inr r
                  \<and> awaiting s rid = Some (AwaitStatus i)
                  \<and> hook_status (step ev s) = data r ''status''))"
proof (intro conjI)
  show "hook_status (init pid b) = Some ''not_started''"
    by (simp add: init_def)
  then have "hook_status (init pid b) \<in> status_enum"
    by (simp add: status_enum_def)
  then show "hook_status (run evs (init pid b)) \<in> status_enum"
    using assms by (rule run_enum)
  show "hook_status (step ev s) = hook_status s
            \<or> (\<exists>rid rep r. ev = Settle rid rep \<and> axios_settle rep = Inr r
                  \<and> awaiting s rid = Some AwaitRun
                  \<and> hook_status (step ev s) = Some ''processing'')
            \<or> (\<exists>rid rep r i. ev = Settle rid rep \<and> axios_settle rep = Inr r
                  \<and> awaiting s rid = Some (AwaitStatus i)
                  \<and> hook_status (step ev s) = data r ''status'')"
    by (rule step_status)
qed

theorem status_tracks_replies_witness:
  "enum_replies
     ([StartAnalysis, Settle 0 (fulfilled Map.empty)] @ replicate 3000 Elapse
       @ [Settle 1 (fulfilled [''status'' \<mapsto> ''completed''])])
     (init ''p1'' sample_page)
   \<and> hook_status
       (run ([StartAnalysis, Settle 0 (fulfilled Map.empty)] @ replicate 3000 Elapse
              @ [Settle 1 (fulfilled [''status'' \<mapsto> ''completed''])])
          (init ''p1'' sample_page)) \<in> status_enum"
proof -
  have a: "enum_replies [StartAnalysis, Settle 0 (fulfilled Map.empty)] (init ''p1'' sample_page)"
    by (simp add: enum_reply_def eval_defs)
  have "enum_reply polling (Settle 1 (fulfilled [''status'' \<mapsto> ''completed'']))"
    by (rule enum_reply_status [OF polling_fields(1) axios_settle_fulfilled])
       (simp add: status_enum_def)
  then have b: "enum_replies [Settle 1 (fulfilled [''status'' \<mapsto> ''completed''])] polling"
    by (simp only: enum_replies.simps simp_thms)
  have h: "enum_replies
     ([StartAnalysis, Settle 0 (fulfilled Map.empty)] @ replicate 3000 Elapse
       @ [Settle 1 (fulfilled [''status'' \<mapsto> ''completed''])])
     (init ''p1'' sample_page)"
    using a b
    by (simp only: enum_replies_append enum_replies_Elapse run_append simp_thms)
  from status_tracks_replies [OF h] h show ?thesis by blast
qed

text \<open>
  Claim C8 as stated fails. A status response \<^verbatim>\<open>failed\<close> is stored as it comes, which is
  no value of the enumeration; and after \<^verbatim>\<open>completed\<close> a second \<^verbatim>\<open>startAnalysis\<close> sets
  the status back to \<^verbatim>\<open>processing\<close>.
\<close>

theorem status_leaves_enumeration:
  "hook_status (run [Settle 1 (fulfilled [''status'' \<mapsto> ''failed''])] polling) = Some ''failed''
   \<and> hook_status (run [Settle 1 (fulfilled [''status'' \<mapsto> ''failed''])] polling)
       \<notin> status_enum
   \<and> hook_status (run [Settle 1 (fulfilled [''status'' \<mapsto> ''completed''])] polling)
       = Some ''completed''
   \<and> hook_status (run [Settle 1 (fulfilled [''status'' \<mapsto> ''completed'']), StartAnalysis,
                         Settle 3 (fulfilled Map.empty)] polling)
       = Some ''processing''"
proof -
  have st: "hook_status (step (Settle 1 (fulfilled d)) polling) = d ''status''" for d
    using step_status_reply [OF polling_fields(1) axios_settle_fulfilled, of d]
    by (simp del: step.simps run_append run_Cons)
  let ?s2 = "step (Settle 1 (fulfilled [''status'' \<mapsto> ''completed''])) polling"
  have "sent ?s2 = sent polling @
          [\<lparr>sent_at = clock polling,
            cfg = api_send (page polling) ''GET'' (''/analysis/results/'' @ projectId polling)
                    NoPayload Map.empty,
            kont = AwaitResults\<rparr>]"
    by (rule step_completed(2) [OF polling_fields(1) axios_settle_fulfilled]) simp
  then have "length (sent ?s2) = Suc (length (map kont (sent polling)))"
    by (simp del: step.simps run_append run_Cons)
  then have len: "length (sent ?s2) = 3"
    by (simp only: polling_fields(4)) simp
  have aw: "awaiting (step StartAnalysis ?s2) 3 = Some AwaitRun"
    using startAnalysis_awaiting [of ?s2] by (simp only: len)
  have "hook_status (step (Settle 3 (fulfilled Map.empty)) (step StartAnalysis ?s2))
          = Some ''processing''"
    by (rule step_run_reply [OF aw axios_settle_fulfilled])
  with st [of "[''status'' \<mapsto> ''failed'']"] st [of "[''status'' \<mapsto> ''completed'']"]
  show ?thesis
    by (simp only: run_Cons run_Nil) (simp add: status_enum_def)
qed

end
